theory Spec2Isabelle
  imports Complex_Main "HOL-Library.Multiset" "HOL-Library.Sublist"
begin

section \<open>The gallery client of \<^verbatim>\<open>static/js/main.js\<close>\<close>

text \<open>
  The object returned by \<^verbatim>\<open>galleryApp()\<close> is a record of its data fields; every
  method is a function from the record to the updated record. What a method asks of the
  browser is an argument of the function: the built-ins whose results depend on the host
  (\<^verbatim>\<open>Date\<close> with its locale and time zone, \<^verbatim>\<open>trim\<close> and \<^verbatim>\<open>toLowerCase\<close> with
  their Unicode tables, the order in which the engine's \<^verbatim>\<open>sort\<close> leaves an array when
  the language does not fix it) are the fields of a record \<open>H\<close>, and the outcome of a
  \<^verbatim>\<open>fetch\<close> is a value \<open>r\<close>. What it does to the page
  that the claims speak of (the notifications appended to the document, the interval timers
  registered for the slideshow) is a field of the record.
\<close>

subsection \<open>Strings\<close>

text \<open>
  Strings are lists of 8-bit characters; text outside ASCII is in UTF-8. For well-formed
  text, one string occurs in another as a sequence of bytes exactly when it does as a
  sequence of UTF-16 code units, which is what \<^verbatim>\<open>includes\<close> compares.

  \<^verbatim>\<open>s.includes(q)\<close>: does \<open>q\<close> occur in \<open>s\<close> as a contiguous substring.
\<close>

fun String_includes :: "string \<Rightarrow> string \<Rightarrow> bool" where
  "String_includes [] q = (q = [])"
| "String_includes (c # cs) q = (prefix q (c # cs) \<or> String_includes cs q)"

text \<open>The decimal numeral that a template literal prints for a natural number.\<close>

fun decimal :: "nat \<Rightarrow> string" where
  "decimal n =
     (if n < 10 then [''0123456789'' ! n]
      else decimal (n div 10) @ [''0123456789'' ! (n mod 10)])"

declare decimal.simps [simp del]

subsection \<open>Arrays\<close>

text \<open>
  \<^verbatim>\<open>xs[i]\<close> is \<^verbatim>\<open>undefined\<close> outside the array; \<^verbatim>\<open>xs.slice(a, b)\<close> counts a
  negative bound from the end and clamps both bounds to the array.
\<close>

definition Array_get :: "'a list \<Rightarrow> int \<Rightarrow> 'a option" where
  "Array_get xs i = (if 0 \<le> i \<and> i < int (length xs) then Some (xs ! nat i) else None)"

definition relative_index :: "nat \<Rightarrow> int \<Rightarrow> nat" where
  "relative_index len i =
     (if i < 0 then nat (max (int len + i) 0) else nat (min i (int len)))"

definition Array_slice :: "'a list \<Rightarrow> int \<Rightarrow> int \<Rightarrow> 'a list" where
  "Array_slice xs a b =
     (let k = relative_index (length xs) a; final = relative_index (length xs) b
      in take (final - k) (drop k xs))"

text \<open>\<^verbatim>\<open>xs.findIndex(p)\<close>: the first index whose element satisfies \<open>p\<close>, or \<open>-1\<close>.\<close>

fun Array_findIndex :: "('a \<Rightarrow> bool) \<Rightarrow> 'a list \<Rightarrow> int" where
  "Array_findIndex p [] = -1"
| "Array_findIndex p (x # xs) =
     (if p x then 0 else (let i = Array_findIndex p xs in if i < 0 then -1 else i + 1))"

text \<open>\<^verbatim>\<open>xs.splice(i, 1)\<close> for an index that \<^verbatim>\<open>findIndex\<close> returned.\<close>

definition Array_splice1 :: "'a list \<Rightarrow> int \<Rightarrow> 'a list" where
  "Array_splice1 xs i = take (nat i) xs @ drop (Suc (nat i)) xs"

text \<open>
  A stable insertion sort: an element goes in front of the first later element that the
  comparator does not put before it.
\<close>

fun sort_insert :: "('a \<Rightarrow> 'a \<Rightarrow> int) \<Rightarrow> 'a \<Rightarrow> 'a list \<Rightarrow> 'a list" where
  "sort_insert cmp x [] = [x]"
| "sort_insert cmp x (y # ys) =
     (if cmp x y \<le> 0 then x # y # ys else y # sort_insert cmp x ys)"

fun stable_sort :: "('a \<Rightarrow> 'a \<Rightarrow> int) \<Rightarrow> 'a list \<Rightarrow> 'a list" where
  "stable_sort cmp [] = []"
| "stable_sort cmp (x # xs) = sort_insert cmp x (stable_sort cmp xs)"

text \<open>
  A comparator returns a number, \<open>None\<close> standing for \<^verbatim>\<open>NaN\<close>. The sort reads a
  result through \<^verbatim>\<open>SortCompare\<close>, where \<^verbatim>\<open>NaN\<close> counts as \<open>0\<close>.
\<close>

definition SortCompare :: "('a \<Rightarrow> 'a \<Rightarrow> int option) \<Rightarrow> 'a \<Rightarrow> 'a \<Rightarrow> int" where
  "SortCompare cmp a b = (case cmp a b of None \<Rightarrow> 0 | Some v \<Rightarrow> v)"

text \<open>
  A comparator is consistent on the elements of an array, in the words of the language
  specification, when it never returns \<^verbatim>\<open>NaN\<close>, comparing an element with itself
  gives \<open>0\<close>, \<open>a = b\<close> gives \<open>b = a\<close>, and each of \<open>=\<close>, \<open><\<close> and \<open>>\<close> is
  transitive (here \<open>a = b\<close>, \<open>a < b\<close> and \<open>a > b\<close> stand for a result that is zero,
  negative and positive).
\<close>

definition consistent_on :: "('a \<Rightarrow> 'a \<Rightarrow> int option) \<Rightarrow> 'a list \<Rightarrow> bool" where
  "consistent_on cmp xs =
     (\<forall>a \<in> set xs. SortCompare cmp a a = 0 \<and>
        (\<forall>b \<in> set xs. cmp a b \<noteq> None \<and>
           (SortCompare cmp a b = 0 \<longrightarrow> SortCompare cmp b a = 0) \<and>
           (\<forall>c \<in> set xs.
              (SortCompare cmp a b = 0 \<and> SortCompare cmp b c = 0 \<longrightarrow> SortCompare cmp a c = 0) \<and>
              (SortCompare cmp a b < 0 \<and> SortCompare cmp b c < 0 \<longrightarrow> SortCompare cmp a c < 0) \<and>
              (SortCompare cmp a b > 0 \<and> SortCompare cmp b c > 0 \<longrightarrow> SortCompare cmp a c > 0))))"

text \<open>
  \<^verbatim>\<open>Math.ceil(n / p)\<close> for an array length \<open>n\<close> and a positive integer \<open>p\<close>. The
  quotient of the source is a double; for lengths below \<open>2^53\<close> its ceiling is the
  ceiling of the exact quotient.
\<close>

definition Math_ceil_quot :: "nat \<Rightarrow> nat \<Rightarrow> int" where
  "Math_ceil_quot n p = (if n mod p = 0 then int (n div p) else int (n div p) + 1)"

subsection \<open>Image records and the host\<close>

text \<open>
  An element of the \<^verbatim>\<open>images\<close> array of \<^verbatim>\<open>GET /api/images\<close>. An absent
  \<^verbatim>\<open>caption\<close>, \<^verbatim>\<open>thumbnail_url\<close> or \<^verbatim>\<open>timestamp\<close> is \<open>None\<close>.
\<close>

record image =
  id_field :: string
  full_url :: string
  thumbnail_url :: "string option"
  caption :: "string option"
  timestamp :: "string option"

text \<open>
  What the client reads from \<^verbatim>\<open>new Date(timestamp)\<close>: the time value in milliseconds
  (\<open>None\<close> for \<^verbatim>\<open>NaN\<close>, an invalid date), \<^verbatim>\<open>toLocaleDateString()\<close>,
  \<^verbatim>\<open>toLocaleDateString('en-US', {year: 'numeric', month: 'long'})\<close>,
  \<^verbatim>\<open>toLocaleDateString('en-US', {month: 'long'})\<close> and \<^verbatim>\<open>getFullYear()\<close>.
\<close>

record js_date =
  getTime :: "int option"
  toLocaleDateString :: string
  toLocaleMonthYear :: string
  toLocaleMonth :: string
  getFullYear :: "int option"

text \<open>
  The host: \<open>Date H ts\<close> is \<^verbatim>\<open>new Date(ts)\<close> in the locale and time zone of the
  browser; \<open>trim H\<close> and \<open>toLowerCase H\<close> are the string built-ins with the white
  space and the case mappings of the browser's Unicode version; \<open>sort_order H c xs\<close>
  is the order in which the engine's \<^verbatim>\<open>sort\<close> leaves \<open>xs\<close> when the comparator, which
  it reads as \<open>c\<close>, is not consistent: the language leaves that order to the
  implementation. Every theorem below holds for every host.
\<close>

record host =
  Date :: "string option \<Rightarrow> js_date"
  trim :: "string \<Rightarrow> string"
  toLowerCase :: "string \<Rightarrow> string"
  sort_order :: "(image \<Rightarrow> image \<Rightarrow> int) \<Rightarrow> image list \<Rightarrow> image list"

text \<open>
  \<^verbatim>\<open>s.toLowerCase()\<close>: the empty string has no character to lower, on any host.
\<close>

definition String_toLowerCase :: "host \<Rightarrow> string \<Rightarrow> string" where
  "String_toLowerCase H s = (if s = [] then [] else toLowerCase H s)"

text \<open>The calendar emoji U+1F4C5 (in UTF-8) and the space that \<^verbatim>\<open>formatDate\<close> prepends.\<close>

definition calendar_prefix :: string where
  "calendar_prefix = [CHR 0xF0, CHR 0x9F, CHR 0x93, CHR 0x85, CHR '' '']"

text \<open>\<^verbatim>\<open>!timestamp\<close>: the field is absent or the empty string.\<close>

definition falsy :: "string option \<Rightarrow> bool" where
  "falsy v = (case v of None \<Rightarrow> True | Some s \<Rightarrow> s = [])"

definition formatDate :: "host \<Rightarrow> string option \<Rightarrow> string" where
  "formatDate H ts = (if falsy ts then [] else calendar_prefix @ toLocaleDateString (Date H ts))"

subsection \<open>The state of the application\<close>

record month_group =
  photos :: "image list"
  count_field :: nat
  monthName :: string
  year :: "int option"
  sortDate :: js_date

datatype view_mode = grouped | grid

text \<open>
  \<open>currentImage = None\<close> stands for a value that is no image record (the initial empty
  object, or \<^verbatim>\<open>undefined\<close> after a read outside the array). \<open>groupedImages\<close> is
  the object keyed by month, in insertion order. \<open>slideshowInterval\<close> tells whether
  the field holds a timer handle; \<open>liveIntervals\<close> counts the slideshow interval timers
  registered with the browser and not cleared. \<open>notifications\<close> lists the message and
  type of every notification element appended to the document, oldest first.
  \<^verbatim>\<open>photosPerPage\<close> is initialised to 24 and never assigned.
\<close>

record gallery =
  loading :: bool
  images :: "image list"
  displayedImages :: "image list"
  groupedImages :: "(string \<times> month_group) list"
  lightboxOpen :: bool
  currentImage :: "image option"
  currentIndex :: int
  currentPage :: int
  totalPages :: int
  searchQuery :: string
  selectedPhotos :: "image list"
  selectionMode :: bool
  slideshowActive :: bool
  slideshowInterval :: bool
  viewMode :: view_mode
  liveIntervals :: nat
  notifications :: "(string \<times> string) list"

definition photosPerPage :: nat where
  "photosPerPage = 24"

definition galleryApp :: gallery where
  "galleryApp =
     \<lparr>loading = True, images = [], displayedImages = [], groupedImages = [],
      lightboxOpen = False, currentImage = None, currentIndex = 0, currentPage = 1,
      totalPages = 1, searchQuery = [], selectedPhotos = [], selectionMode = False,
      slideshowActive = False, slideshowInterval = False, viewMode = grouped,
      liveIntervals = 0, notifications = []\<rparr>"

definition showNotification :: "string \<Rightarrow> string \<Rightarrow> gallery \<Rightarrow> gallery" where
  "showNotification message type s = s\<lparr>notifications := notifications s @ [(message, type)]\<rparr>"

subsection \<open>Pagination and search\<close>

text \<open>The predicate of the \<^verbatim>\<open>filter\<close> call in \<^verbatim>\<open>updatePagination\<close>.\<close>

definition matchesQuery :: "host \<Rightarrow> string \<Rightarrow> image \<Rightarrow> bool" where
  "matchesQuery H q img =
     ((\<not> falsy (caption img) \<and>
         String_includes (String_toLowerCase H (the (caption img))) (String_toLowerCase H q))
      \<or> String_includes (String_toLowerCase H (formatDate H (timestamp img)))
           (String_toLowerCase H q))"

definition filteredImages :: "host \<Rightarrow> gallery \<Rightarrow> image list" where
  "filteredImages H s =
     (if trim H (searchQuery s) \<noteq> [] then filter (matchesQuery H (searchQuery s)) (images s)
      else images s)"

definition updatePagination :: "host \<Rightarrow> gallery \<Rightarrow> gallery" where
  "updatePagination H s =
     (let filtered = filteredImages H s;
          tp = Math_ceil_quot (length filtered) photosPerPage;
          cp = (if currentPage s > tp then 1 else currentPage s);
          startIndex = (cp - 1) * int photosPerPage;
          endIndex = startIndex + int photosPerPage
      in s\<lparr>totalPages := tp, currentPage := cp,
            displayedImages := Array_slice filtered startIndex endIndex\<rparr>)"

definition goToPage :: "host \<Rightarrow> int \<Rightarrow> gallery \<Rightarrow> gallery" where
  "goToPage H page s =
     (if page \<ge> 1 \<and> page \<le> totalPages s then updatePagination H (s\<lparr>currentPage := page\<rparr>)
      else s)"

definition nextPage :: "host \<Rightarrow> gallery \<Rightarrow> gallery" where
  "nextPage H s = goToPage H (currentPage s + 1) s"

definition prevPage :: "host \<Rightarrow> gallery \<Rightarrow> gallery" where
  "prevPage H s = goToPage H (currentPage s - 1) s"

definition searchPhotos :: "host \<Rightarrow> gallery \<Rightarrow> gallery" where
  "searchPhotos H s = updatePagination H (s\<lparr>currentPage := 1\<rparr>)"

definition clearSearch :: "host \<Rightarrow> gallery \<Rightarrow> gallery" where
  "clearSearch H s = searchPhotos H (s\<lparr>searchQuery := []\<rparr>)"

definition toggleViewMode :: "host \<Rightarrow> gallery \<Rightarrow> gallery" where
  "toggleViewMode H s =
     updatePagination H
       (s\<lparr>viewMode := (if viewMode s = grouped then grid else grouped), currentPage := 1\<rparr>)"

subsection \<open>Loading, sorting and grouping\<close>

definition timeValue :: "host \<Rightarrow> image \<Rightarrow> int option" where
  "timeValue H img = getTime (Date H (timestamp img))"

text \<open>
  The comparator \<^verbatim>\<open>(a, b) => new Date(b.timestamp) - new Date(a.timestamp)\<close>. The
  difference is \<^verbatim>\<open>NaN\<close> when either date is invalid. (Time values are integers; of
  their difference the sort reads the sign, which a double keeps.)
\<close>

definition byNewest :: "host \<Rightarrow> image \<Rightarrow> image \<Rightarrow> int option" where
  "byNewest H a b =
     (case (timeValue H b, timeValue H a) of
        (Some tb, Some ta) \<Rightarrow> Some (tb - ta)
      | _ \<Rightarrow> None)"

text \<open>
  \<^verbatim>\<open>xs.sort(cmp)\<close>. For a consistent comparator the language fixes the result: the
  elements in the comparator's order, equal ones in their original order, which is what
  the stable insertion sort returns. Otherwise the elements come in the engine's order;
  an engine returns the elements that it was given, so a value of \<open>sort_order\<close> that is
  not a permutation of the array is not used.
\<close>

definition Array_sort ::
  "host \<Rightarrow> (image \<Rightarrow> image \<Rightarrow> int option) \<Rightarrow> image list \<Rightarrow> image list" where
  "Array_sort H cmp xs =
     (if consistent_on cmp xs then stable_sort (SortCompare cmp) xs
      else (let ys = sort_order H (SortCompare cmp) xs
            in if mset ys = mset xs then ys else xs))"

definition new_group :: "js_date \<Rightarrow> month_group" where
  "new_group date =
     \<lparr>photos = [], count_field = 0, monthName = toLocaleMonth date,
      year = getFullYear date, sortDate = date\<rparr>"

definition group_push :: "image \<Rightarrow> month_group \<Rightarrow> month_group" where
  "group_push img g = g\<lparr>photos := photos g @ [img], count_field := count_field g + 1\<rparr>"

text \<open>Updating the value stored under a key of the object, in place.\<close>

fun object_update ::
  "string \<Rightarrow> (month_group \<Rightarrow> month_group) \<Rightarrow> (string \<times> month_group) list
     \<Rightarrow> (string \<times> month_group) list" where
  "object_update k f [] = []"
| "object_update k f ((k', g) # rest) =
     (if k' = k then (k', f g) # rest else (k', g) # object_update k f rest)"

text \<open>The body of the \<^verbatim>\<open>forEach\<close> callback of \<^verbatim>\<open>groupImagesByMonth\<close>.\<close>

definition group_image ::
  "host \<Rightarrow> (string \<times> month_group) list \<Rightarrow> image \<Rightarrow> (string \<times> month_group) list" where
  "group_image H obj img =
     (let date = Date H (timestamp img);
          monthYear = toLocaleMonthYear date;
          obj' = (if map_of obj monthYear = None then obj @ [(monthYear, new_group date)]
                  else obj)
      in object_update monthYear (group_push img) obj')"

definition groupImagesByMonth :: "host \<Rightarrow> gallery \<Rightarrow> gallery" where
  "groupImagesByMonth H s = s\<lparr>groupedImages := foldl (group_image H) [] (images s)\<rparr>"

text \<open>
  How \<^verbatim>\<open>fetch('/api/images')\<close> and \<^verbatim>\<open>response.json()\<close> end: the fetch rejects, the
  body is not JSON, or the body is an object whose \<^verbatim>\<open>images\<close> field is the given
  array (\<open>None\<close> when the field is absent or null).
\<close>

datatype fetch_outcome = NetworkError | InvalidJson | Json "image list option"

definition loadImages :: "host \<Rightarrow> fetch_outcome \<Rightarrow> gallery \<Rightarrow> gallery" where
  "loadImages H r s =
     (case r of
        Json data_images \<Rightarrow>
          (let s1 = s\<lparr>loading := True\<rparr>;
               s2 = s1\<lparr>images := (case data_images of None \<Rightarrow> [] | Some xs \<Rightarrow> xs)\<rparr>;
               s3 = s2\<lparr>images := Array_sort H (byNewest H) (images s2)\<rparr>;
               s4 = groupImagesByMonth H s3;
               s5 = updatePagination H s4
           in s5\<lparr>loading := False\<rparr>)
      | _ \<Rightarrow> s\<lparr>images := [], displayedImages := [], loading := False\<rparr>)"

subsection \<open>Lightbox navigation\<close>

definition openLightbox :: "image \<Rightarrow> gallery \<Rightarrow> gallery" where
  "openLightbox img s =
     s\<lparr>currentImage := Some img,
       currentIndex := Array_findIndex (\<lambda>i. id_field i = id_field img) (images s),
       lightboxOpen := True\<rparr>"

definition closeLightbox :: "gallery \<Rightarrow> gallery" where
  "closeLightbox s = s\<lparr>lightboxOpen := False\<rparr>"

definition nextImage :: "gallery \<Rightarrow> gallery" where
  "nextImage s =
     (if currentIndex s < int (length (images s)) - 1
      then (let i = currentIndex s + 1
            in s\<lparr>currentIndex := i, currentImage := Array_get (images s) i\<rparr>)
      else s)"

definition prevImage :: "gallery \<Rightarrow> gallery" where
  "prevImage s =
     (if currentIndex s > 0
      then (let i = currentIndex s - 1
            in s\<lparr>currentIndex := i, currentImage := Array_get (images s) i\<rparr>)
      else s)"

subsection \<open>Selection\<close>

definition toggleSelectionMode :: "gallery \<Rightarrow> gallery" where
  "toggleSelectionMode s =
     (let s1 = s\<lparr>selectionMode := \<not> selectionMode s\<rparr>
      in if \<not> selectionMode s1 then s1\<lparr>selectedPhotos := []\<rparr> else s1)"

definition togglePhotoSelection :: "image \<Rightarrow> gallery \<Rightarrow> gallery" where
  "togglePhotoSelection photo s =
     (let index = Array_findIndex (\<lambda>p. id_field p = id_field photo) (selectedPhotos s)
      in if index > -1 then s\<lparr>selectedPhotos := Array_splice1 (selectedPhotos s) index\<rparr>
         else s\<lparr>selectedPhotos := selectedPhotos s @ [photo]\<rparr>)"

definition isPhotoSelected :: "gallery \<Rightarrow> image \<Rightarrow> bool" where
  "isPhotoSelected s photo = list_ex (\<lambda>p. id_field p = id_field photo) (selectedPhotos s)"

definition selectAllVisible :: "gallery \<Rightarrow> gallery" where
  "selectAllVisible s =
     foldl (\<lambda>t photo. if \<not> isPhotoSelected t photo
                       then t\<lparr>selectedPhotos := selectedPhotos t @ [photo]\<rparr> else t)
       s (displayedImages s)"

definition clearSelection :: "gallery \<Rightarrow> gallery" where
  "clearSelection s = s\<lparr>selectedPhotos := []\<rparr>"

text \<open>
  The selections that the application can hold: \<^verbatim>\<open>selectedPhotos\<close> starts empty and is
  written by the four methods above (and emptied again when a batch download completes);
  every other method leaves the field as it is.
\<close>

inductive selection_reachable :: "gallery \<Rightarrow> bool" where
  empty: "selectedPhotos s = [] \<Longrightarrow> selection_reachable s"
| toggle: "selection_reachable s \<Longrightarrow> selection_reachable (togglePhotoSelection p s)"
| select_all: "selection_reachable s \<Longrightarrow> selection_reachable (selectAllVisible s)"
| mode: "selection_reachable s \<Longrightarrow> selection_reachable (toggleSelectionMode s)"
| other: "selection_reachable s \<Longrightarrow> selectedPhotos s' = selectedPhotos s
            \<Longrightarrow> selection_reachable s'"

subsection \<open>Notifications, slideshow and auto-refresh\<close>

text \<open>The emoji of the notification texts, in UTF-8.\<close>

definition emoji_clapper :: string where
  "emoji_clapper = [CHR 0xF0, CHR 0x9F, CHR 0x8E, CHR 0xAC]"

definition emoji_sparkles :: string where
  "emoji_sparkles = [CHR 0xE2, CHR 0x9C, CHR 0xA8]"

definition emoji_stop :: string where
  "emoji_stop = [CHR 0xE2, CHR 0x8F, CHR 0xB9, CHR 0xEF, CHR 0xB8, CHR 0x8F]"

definition emoji_party :: string where
  "emoji_party = [CHR 0xF0, CHR 0x9F, CHR 0x8E, CHR 0x89]"

definition emoji_camera :: string where
  "emoji_camera = [CHR 0xF0, CHR 0x9F, CHR 0x93, CHR 0xB8]"

definition stopSlideshow :: "gallery \<Rightarrow> gallery" where
  "stopSlideshow s =
     (let s1 = s\<lparr>slideshowActive := False\<rparr>;
          s2 = (if slideshowInterval s1
                then s1\<lparr>liveIntervals := liveIntervals s1 - 1, slideshowInterval := False\<rparr>
                else s1)
      in showNotification (emoji_stop @ '' Slideshow stopped!'') ''info'' s2)"

text \<open>The callback that \<^verbatim>\<open>startSlideshow\<close> hands to \<^verbatim>\<open>setInterval\<close>.\<close>

definition slideshowTick :: "gallery \<Rightarrow> gallery" where
  "slideshowTick s =
     (let s1 = nextImage s
      in if currentIndex s1 = int (length (images s1)) - 1 then stopSlideshow s1 else s1)"

definition startSlideshow :: "gallery \<Rightarrow> gallery" where
  "startSlideshow s =
     (if length (images s) = 0 then s
      else (let s1 = s\<lparr>slideshowActive := True, currentIndex := 0,
                         currentImage := Array_get (images s) 0, lightboxOpen := True\<rparr>;
                s2 = s1\<lparr>slideshowInterval := True, liveIntervals := liveIntervals s1 + 1\<rparr>
            in showNotification (emoji_clapper @ '' Slideshow started! '' @ emoji_sparkles)
                 ''success'' s2))"

text \<open>
  One tick: a registered slideshow timer fires and the browser runs its callback; with no
  timer registered nothing happens. Every registered timer ticks once in three seconds,
  and \<^verbatim>\<open>startSlideshow\<close> does not clear an earlier handle, so several timers can be
  registered and tick in the same period. \<open>after_ticks k s\<close> is the state after \<open>k\<close>
  ticks with nothing else in between (no key, no swipe, no poll).
\<close>

definition timer_fires :: "gallery \<Rightarrow> gallery" where
  "timer_fires s = (if liveIntervals s > 0 then slideshowTick s else s)"

fun after_ticks :: "nat \<Rightarrow> gallery \<Rightarrow> gallery" where
  "after_ticks 0 s = s"
| "after_ticks (Suc k) s = timer_fires (after_ticks k s)"

definition newPhotosMessage :: "nat \<Rightarrow> string" where
  "newPhotosMessage newCount =
     emoji_party @ '' '' @ decimal newCount @ '' new photo''
       @ (if newCount > 1 then ''s'' else [])
       @ '' added! '' @ emoji_sparkles"

text \<open>
  The callback of \<^verbatim>\<open>setupAutoRefresh\<close>, run every 30000 milliseconds; \<open>r\<close> is how
  the fetch of this poll ends.
\<close>

definition autoRefreshPoll :: "host \<Rightarrow> fetch_outcome \<Rightarrow> gallery \<Rightarrow> gallery" where
  "autoRefreshPoll H r s =
     (let currentCount = length (images s);
          s1 = loadImages H r s
      in if length (images s1) > currentCount
         then (let newCount = length (images s1) - currentCount
               in showNotification (newPhotosMessage newCount) ''success'' s1)
         else s1)"

definition refreshGallery :: "host \<Rightarrow> fetch_outcome \<Rightarrow> gallery \<Rightarrow> gallery" where
  "refreshGallery H r s =
     showNotification (emoji_camera @ '' Gallery refreshed! '' @ emoji_sparkles) ''success''
       (loadImages H r s)"

subsection \<open>A host for the examples\<close>

text \<open>
  The texts of the examples are ASCII, apart from the calendar emoji, which has no case.
  On such text \<^verbatim>\<open>trim\<close> strips TAB, LF, VT, FF, CR and the space and
  \<^verbatim>\<open>toLowerCase\<close> lowers the letters A to Z, on every host; the example host is
  meant for such text only.
\<close>

definition is_space :: "char \<Rightarrow> bool" where
  "is_space c = (c \<in> set [CHR 0x09, CHR 0x0A, CHR 0x0B, CHR 0x0C, CHR 0x0D, CHR '' ''])"

definition ascii_trim :: "string \<Rightarrow> string" where
  "ascii_trim s = rev (dropWhile is_space (rev (dropWhile is_space s)))"

definition lower_char :: "char \<Rightarrow> char" where
  "lower_char c =
     (case map_of (zip ''ABCDEFGHIJKLMNOPQRSTUVWXYZ'' ''abcdefghijklmnopqrstuvwxyz'') c of
        Some l \<Rightarrow> l
      | None \<Rightarrow> c)"

definition ascii_toLowerCase :: "string \<Rightarrow> string" where
  "ascii_toLowerCase s = map lower_char s"

text \<open>
  The dates of a browser with the \<^verbatim>\<open>en-US\<close> locale at three timestamps (noon UTC, so
  the local day is the same in every time zone from UTC-12 to UTC+11); any other string,
  and an absent timestamp, is an invalid date.
\<close>

definition invalid_date :: js_date where
  "invalid_date =
     \<lparr>getTime = None, toLocaleDateString = ''Invalid Date'',
      toLocaleMonthYear = ''Invalid Date'', toLocaleMonth = ''Invalid Date'',
      getFullYear = None\<rparr>"

definition example_Date :: "string option \<Rightarrow> js_date" where
  "example_Date ts =
     (if ts = Some ''2024-01-15T12:00:00Z'' then
        \<lparr>getTime = Some 1705320000000, toLocaleDateString = ''1/15/2024'',
         toLocaleMonthYear = ''January 2024'', toLocaleMonth = ''January'',
         getFullYear = Some 2024\<rparr>
      else if ts = Some ''2024-01-20T12:00:00Z'' then
        \<lparr>getTime = Some 1705752000000, toLocaleDateString = ''1/20/2024'',
         toLocaleMonthYear = ''January 2024'', toLocaleMonth = ''January'',
         getFullYear = Some 2024\<rparr>
      else if ts = Some ''2024-03-01T12:00:00Z'' then
        \<lparr>getTime = Some 1709294400000, toLocaleDateString = ''3/1/2024'',
         toLocaleMonthYear = ''March 2024'', toLocaleMonth = ''March'',
         getFullYear = Some 2024\<rparr>
      else invalid_date)"

text \<open>The engine of the example host sorts by stable insertion whatever the comparator.\<close>

definition example_host :: host where
  "example_host =
     \<lparr>Date = example_Date, trim = ascii_trim, toLowerCase = ascii_toLowerCase,
      sort_order = stable_sort\<rparr>"

definition photo :: "string \<Rightarrow> string option \<Rightarrow> string \<Rightarrow> image" where
  "photo i c ts =
     \<lparr>id_field = i, full_url = ''https://example.org/'' @ i, thumbnail_url = None,
      caption = c, timestamp = Some ts\<rparr>"

definition photo_jan15 :: image where
  "photo_jan15 = photo ''a'' (Some ''First Smile'') ''2024-01-15T12:00:00Z''"

definition photo_jan20 :: image where
  "photo_jan20 = photo ''b'' None ''2024-01-20T12:00:00Z''"

definition photo_mar01 :: image where
  "photo_mar01 = photo ''c'' (Some ''smiling again'') ''2024-03-01T12:00:00Z''"

text \<open>A record without a timestamp.\<close>

definition photo_undated :: image where
  "photo_undated =
     \<lparr>id_field = ''x'', full_url = ''https://example.org/x'', thumbnail_url = None,
      caption = None, timestamp = None\<rparr>"

text \<open>A gallery of 25 images, the oldest one last, with no search.\<close>

definition gallery25 :: gallery where
  "gallery25 = galleryApp\<lparr>images := replicate 24 photo_jan20 @ [photo_jan15]\<rparr>"

definition gallery3 :: gallery where
  "gallery3 = galleryApp\<lparr>images := [photo_mar01, photo_jan20, photo_jan15]\<rparr>"

text \<open>The two month groups of \<open>gallery3\<close>.\<close>

definition march_group :: month_group where
  "march_group =
     \<lparr>photos = [photo_mar01], count_field = 1, monthName = ''March'', year = Some 2024,
      sortDate = example_Date (Some ''2024-03-01T12:00:00Z'')\<rparr>"

definition january_group :: month_group where
  "january_group =
     \<lparr>photos = [photo_jan20, photo_jan15], count_field = 2, monthName = ''January'',
      year = Some 2024, sortDate = example_Date (Some ''2024-01-20T12:00:00Z'')\<rparr>"



text \<open>
  The lightbox is opened on the only image of the gallery, then an auto-refresh poll brings
  a newer image.
\<close>

definition gallery_stale :: gallery where
  "gallery_stale =
     autoRefreshPoll example_host (Json (Some [photo_jan15, photo_mar01]))
       (openLightbox photo_jan15
          (loadImages example_host (Json (Some [photo_jan15])) galleryApp))"

text \<open>All three images of the first page are selected; and a gallery of one image.\<close>

definition gallery_selecting :: gallery where
  "gallery_selecting = selectAllVisible (updatePagination example_host gallery3)"

definition gallery1 :: gallery where
  "gallery1 = galleryApp\<lparr>images := [photo_jan15]\<rparr>"

subsection \<open>The notions of the specification\<close>



text \<open>
  Newest first: of two adjacent records, the earlier one's timestamp is greater than or
  equal to the later one's. \<open>not_older\<close> is that order on two records.
\<close>

definition not_older :: "host \<Rightarrow> image \<Rightarrow> image \<Rightarrow> bool" where
  "not_older H a b =
     (\<exists>ta tb. timeValue H a = Some ta \<and> timeValue H b = Some tb \<and> tb \<le> ta)"

definition newest_first :: "host \<Rightarrow> image list \<Rightarrow> bool" where
  "newest_first H xs =
     (\<forall>i. Suc i < length xs \<longrightarrow>
        (\<exists>ta tb. timeValue H (xs ! i) = Some ta \<and> timeValue H (xs ! Suc i) = Some tb
           \<and> tb \<le> ta))"

text \<open>
  The calendar month of an image, as the key that \<^verbatim>\<open>groupImagesByMonth\<close> files it
  under; all the photos of a grouping; and what it means for a grouping to partition a
  list of images by month.
\<close>

definition month_key :: "host \<Rightarrow> image \<Rightarrow> string" where
  "month_key H img = toLocaleMonthYear (Date H (timestamp img))"

definition all_photos :: "(string \<times> month_group) list \<Rightarrow> image list" where
  "all_photos G = concat (map (\<lambda>(k, g). photos g) G)"

definition groups_ok :: "host \<Rightarrow> image list \<Rightarrow> (string \<times> month_group) list \<Rightarrow> bool" where
  "groups_ok H xs G =
     (distinct (map fst G)
      \<and> fst ` set G = month_key H ` set xs
      \<and> (\<forall>(k, g) \<in> set G.
            photos g = filter (\<lambda>p. month_key H p = k) xs \<and> count_field g = length (photos g)))"

subsection \<open>Invariants used in the proofs\<close>

text \<open>Removing the first element that satisfies a predicate.\<close>

fun remove_first :: "('a \<Rightarrow> bool) \<Rightarrow> 'a list \<Rightarrow> 'a list" where
  "remove_first P [] = []"
| "remove_first P (x # xs) = (if P x then xs else x # remove_first P xs)"

text \<open>No two selected photos share an id.\<close>

definition distinct_ids :: "gallery \<Rightarrow> bool" where
  "distinct_ids s = distinct (map id_field (selectedPhotos s))"

text \<open>
  The state \<open>t\<close> of a slideshow over \<open>n\<close> images, \<open>k\<close> ticks after it was started
  with \<open>m\<close> timers already registered.
\<close>

definition slideshow_inv :: "nat \<Rightarrow> nat \<Rightarrow> nat \<Rightarrow> gallery \<Rightarrow> bool" where
  "slideshow_inv n m k t =
     (length (images t) = n
      \<and> currentIndex t = min (int k) (int n - 1)
      \<and> slideshowActive t = (k = 0 \<or> int k < int n - 1)
      \<and> slideshowInterval t = slideshowActive t
      \<and> liveIntervals t = m + (if slideshowActive t then 1 else 0))"

section \<open>Properties\<close>

lemma example_host_fields [simp]:
  "Date example_host = example_Date"
  "trim example_host = ascii_trim"
  "toLowerCase example_host = ascii_toLowerCase"
  "sort_order example_host = stable_sort"
  by (simp_all add: example_host_def)

lemma example_ids:
  "id_field photo_jan15 = ''a''" "id_field photo_jan20 = ''b''" "id_field photo_mar01 = ''c''"
  by (simp_all add: photo_jan15_def photo_jan20_def photo_mar01_def photo_def)

subsection \<open>Pagination\<close>

lemma Math_ceil_quot_ceiling:
  assumes "0 < p"
  shows "Math_ceil_quot n p = \<lceil>real n / real p\<rceil>"
proof -
  have "\<lceil>real n / real p\<rceil> = \<lceil>of_int (int n) / (of_int (int p) :: real)\<rceil>"
    by simp
  also have "\<dots> = - (- int n div int p)"
    by (rule ceiling_divide_eq_div)
  also have "\<dots> = (if int n mod int p = 0 then int n div int p else int n div int p + 1)"
    using assms by (simp add: zdiv_zminus1_eq_if)
  also have "\<dots> = Math_ceil_quot n p"
  proof -
    have "int n mod int p = int (n mod p)" by (simp add: zmod_int)
    moreover have "int n div int p = int (n div p)" by (simp add: zdiv_int)
    ultimately show ?thesis unfolding Math_ceil_quot_def by simp
  qed
  finally show ?thesis by simp
qed

lemma Math_ceil_quot_pos:
  assumes "0 < n" and "0 < p"
  shows "1 \<le> Math_ceil_quot n p"
proof (cases "n mod p = 0")
  case True
  then have "p dvd n" by (simp add: dvd_eq_mod_eq_0)
  then have "p \<le> n" using assms(1) by (rule dvd_imp_le)
  then have "0 < n div p" using assms(2) by (simp add: div_greater_zero_iff)
  then show ?thesis using True by (simp add: Math_ceil_quot_def)
next
  case False
  then show ?thesis by (simp add: Math_ceil_quot_def)
qed

lemma Array_slice_page:
  "0 \<le> a \<Longrightarrow> a \<le> b \<Longrightarrow> Array_slice xs a b = take (nat b - nat a) (drop (nat a) xs)"
  by (auto simp: Array_slice_def relative_index_def Let_def min_def)

lemma updatePagination_totalPages:
  "totalPages (updatePagination H s) = Math_ceil_quot (length (filteredImages H s)) photosPerPage"
  by (simp add: updatePagination_def Let_def)

lemma updatePagination_currentPage:
  "currentPage (updatePagination H s) =
     (if currentPage s > totalPages (updatePagination H s) then 1 else currentPage s)"
  by (simp add: updatePagination_def Let_def)

lemma updatePagination_displayedImages:
  "displayedImages (updatePagination H s) =
     Array_slice (filteredImages H s)
       ((currentPage (updatePagination H s) - 1) * int photosPerPage)
       ((currentPage (updatePagination H s) - 1) * int photosPerPage + int photosPerPage)"
  by (simp add: updatePagination_def Let_def)

text \<open>
  Claim C1. After \<^verbatim>\<open>updatePagination\<close>, \<open>totalPages\<close> is the ceiling of the number of
  images being paginated (the filtered list; all images when the trimmed query is empty)
  divided by the page size 24. A current page above \<open>totalPages\<close> is reset to 1, also
  when the list is empty (where \<open>totalPages\<close> is 0); for a non-empty list the current
  page is then between 1 and \<open>totalPages\<close>; and page 1 always shows the first 24
  images of the list.
\<close>

theorem pagination_total_pages:
  "totalPages (updatePagination H s) = \<lceil>real (length (filteredImages H s)) / 24\<rceil>
   \<and> (trim H (searchQuery s) = [] \<longrightarrow>
        totalPages (updatePagination H s) = \<lceil>real (length (images s)) / 24\<rceil>)
   \<and> currentPage (updatePagination H s) =
        (if currentPage s > totalPages (updatePagination H s) then 1 else currentPage s)
   \<and> (filteredImages H s = [] \<and> 1 \<le> currentPage s \<longrightarrow>
        totalPages (updatePagination H s) = 0 \<and> currentPage (updatePagination H s) = 1)
   \<and> (filteredImages H s \<noteq> [] \<and> 1 \<le> currentPage s \<longrightarrow>
        1 \<le> currentPage (updatePagination H s)
        \<and> currentPage (updatePagination H s) \<le> totalPages (updatePagination H s))
   \<and> (currentPage (updatePagination H s) = 1 \<longrightarrow>
        displayedImages (updatePagination H s) = take 24 (filteredImages H s))"
proof -
  have total: "totalPages (updatePagination H s)
      = \<lceil>real (length (filteredImages H s)) / 24\<rceil>"
    using Math_ceil_quot_ceiling [of 24 "length (filteredImages H s)"]
    by (simp add: updatePagination_totalPages photosPerPage_def)
  have blank: "trim H (searchQuery s) = [] \<longrightarrow>
      totalPages (updatePagination H s) = \<lceil>real (length (images s)) / 24\<rceil>"
    using total by (simp add: filteredImages_def photosPerPage_def)
  have empty: "filteredImages H s = [] \<and> 1 \<le> currentPage s \<longrightarrow>
      totalPages (updatePagination H s) = 0 \<and> currentPage (updatePagination H s) = 1"
    by (simp add: updatePagination_def Let_def Math_ceil_quot_def)
  have valid: "filteredImages H s \<noteq> [] \<and> 1 \<le> currentPage s \<longrightarrow>
      1 \<le> currentPage (updatePagination H s)
      \<and> currentPage (updatePagination H s) \<le> totalPages (updatePagination H s)"
  proof
    assume a: "filteredImages H s \<noteq> [] \<and> 1 \<le> currentPage s"
    then have "0 < length (filteredImages H s)" by simp
    then have "1 \<le> Math_ceil_quot (length (filteredImages H s)) photosPerPage"
      by (simp add: Math_ceil_quot_pos photosPerPage_def)
    then have "1 \<le> totalPages (updatePagination H s)"
      by (simp add: updatePagination_totalPages)
    then show "1 \<le> currentPage (updatePagination H s)
        \<and> currentPage (updatePagination H s) \<le> totalPages (updatePagination H s)"
      using a updatePagination_currentPage [of H s] by auto
  qed
  have first: "currentPage (updatePagination H s) = 1 \<longrightarrow>
      displayedImages (updatePagination H s) = take 24 (filteredImages H s)"
  proof
    assume "currentPage (updatePagination H s) = 1"
    then have "displayedImages (updatePagination H s)
        = Array_slice (filteredImages H s) 0 (int photosPerPage)"
      by (simp add: updatePagination_displayedImages)
    then show "displayedImages (updatePagination H s) = take 24 (filteredImages H s)"
      by (simp add: Array_slice_page photosPerPage_def)
  qed
  show ?thesis
    using total blank empty valid first updatePagination_currentPage [of H s]
    by simp
qed

lemma trim_empty: "ascii_trim [] = []"
  by (simp add: ascii_trim_def)

theorem pagination_total_pages_witness:
  "totalPages (updatePagination example_host (galleryApp\<lparr>images := replicate 24 photo_jan20 @ [photo_jan15], currentPage := 3\<rparr>)) = 2
   \<and> currentPage (updatePagination example_host (galleryApp\<lparr>images := replicate 24 photo_jan20 @ [photo_jan15], currentPage := 3\<rparr>)) = 1
   \<and> displayedImages (updatePagination example_host (galleryApp\<lparr>images := replicate 24 photo_jan20 @ [photo_jan15], currentPage := 3\<rparr>)) = replicate 24 photo_jan20
   \<and> totalPages (updatePagination example_host (galleryApp\<lparr>images := []\<rparr>)) = 0
   \<and> currentPage (updatePagination example_host (galleryApp\<lparr>images := []\<rparr>)) = 1"
proof -
  let ?s = "galleryApp\<lparr>images := replicate 24 photo_jan20 @ [photo_jan15], currentPage := 3\<rparr>"
  let ?e = "galleryApp\<lparr>images := []\<rparr>"
  have fs: "filteredImages example_host ?s = replicate 24 photo_jan20 @ [photo_jan15]"
    by (simp add: filteredImages_def galleryApp_def trim_empty)
  have fe: "filteredImages example_host ?e = []"
    by (simp add: filteredImages_def galleryApp_def trim_empty)
  have cs: "currentPage ?s = 3" and ce: "currentPage ?e = 1"
    by (simp_all add: galleryApp_def)
  note S = pagination_total_pages [of example_host ?s, unfolded fs cs]
  note E = pagination_total_pages [of example_host ?e, unfolded fe ce]
  have s1: "totalPages (updatePagination example_host ?s) = 2"
    using S by simp
  have s2: "currentPage (updatePagination example_host ?s) = 1"
    using S s1 by simp
  have s3: "displayedImages (updatePagination example_host ?s) = replicate 24 photo_jan20"
    using S s2 by simp
  have e1: "totalPages (updatePagination example_host ?e) = 0"
    using E by simp
  have e2: "currentPage (updatePagination example_host ?e) = 1"
    using E by simp
  show ?thesis
    using s1 s2 s3 e1 e2 by simp
qed
lemma last_of_25:
  assumes "length xs = 25"
  shows "drop 24 xs = [xs ! 24]"
proof -
  have "drop 24 xs = xs ! 24 # drop 25 xs"
    using assms Cons_nth_drop_Suc [of 24 xs] by simp
  then show ?thesis using assms by simp
qed

text \<open>
  Claim C8. With 25 images and a search query that is empty after trimming,
  \<^verbatim>\<open>updatePagination\<close> yields two pages, and going to page 2 displays exactly one image,
  the 25th of the \<open>images\<close> array.
\<close>

theorem page_two_of_25:
  assumes "length (images s) = 25" and "trim H (searchQuery s) = []"
  shows "totalPages (updatePagination H s) = 2
    \<and> currentPage (goToPage H 2 (updatePagination H s)) = 2
    \<and> totalPages (goToPage H 2 (updatePagination H s)) = 2
    \<and> displayedImages (goToPage H 2 (updatePagination H s)) = [images s ! 24]
    \<and> length (displayedImages (goToPage H 2 (updatePagination H s))) = 1"
proof -
  let ?s1 = "updatePagination H s"
  have f: "filteredImages H s = images s"
    using assms(2) by (simp add: filteredImages_def)
  have tp: "totalPages ?s1 = 2"
    using assms(1) f by (simp add: updatePagination_totalPages Math_ceil_quot_def photosPerPage_def)
  have f1: "filteredImages H (?s1\<lparr>currentPage := 2\<rparr>) = images s"
    using assms(2) by (simp add: filteredImages_def updatePagination_def Let_def)
  have go: "goToPage H 2 ?s1 = updatePagination H (?s1\<lparr>currentPage := 2\<rparr>)"
    using tp by (simp add: goToPage_def)
  have tp2: "totalPages (goToPage H 2 ?s1) = 2"
    using assms(1) f1 go
    by (simp add: updatePagination_totalPages Math_ceil_quot_def photosPerPage_def)
  have cp2: "currentPage (goToPage H 2 ?s1) = 2"
    using tp2 go updatePagination_currentPage [of H "?s1\<lparr>currentPage := 2\<rparr>"] by simp
  have "displayedImages (goToPage H 2 ?s1) = Array_slice (images s) 24 48"
    using cp2 f1 go updatePagination_displayedImages [of H "?s1\<lparr>currentPage := 2\<rparr>"]
    by (simp add: photosPerPage_def)
  then have d: "displayedImages (goToPage H 2 ?s1) = [images s ! 24]"
    using assms(1) by (simp add: Array_slice_page last_of_25)
  show ?thesis using tp cp2 tp2 d by simp
qed

theorem page_two_of_25_witness:
  "length (images gallery25) = 25 \<and> trim example_host (searchQuery gallery25) = []
   \<and> totalPages (updatePagination example_host gallery25) = 2
   \<and> displayedImages (goToPage example_host 2 (updatePagination example_host gallery25)) = [photo_jan15]"
proof -
  have l: "length (images gallery25) = 25" by (simp add: gallery25_def galleryApp_def)
  have q: "trim example_host (searchQuery gallery25) = []" by (simp add: gallery25_def galleryApp_def trim_empty)
  have n: "images gallery25 ! 24 = photo_jan15" by (simp add: gallery25_def galleryApp_def nth_append)
  show ?thesis using page_two_of_25 [OF l q] l q n by simp
qed


subsection \<open>Search\<close>









subsection \<open>Sorting\<close>

lemma mset_sort_insert: "mset (sort_insert cmp x xs) = add_mset x (mset xs)"
  by (induction xs) auto

lemma mset_stable_sort: "mset (stable_sort cmp xs) = mset xs"
  by (induction xs) (auto simp: mset_sort_insert)

lemma set_sort_insert: "set (sort_insert cmp x xs) = insert x (set xs)"
  using mset_sort_insert [of cmp x xs] by (metis set_mset_add_mset_insert set_mset_mset)

lemma not_older_trans: "not_older H a b \<Longrightarrow> not_older H b c \<Longrightarrow> not_older H a c"
  by (auto simp: not_older_def)

lemma byNewest_le:
  assumes "timeValue H a \<noteq> None" "timeValue H b \<noteq> None"
  shows "SortCompare (byNewest H) a b \<le> 0 \<longleftrightarrow> not_older H a b"
    and "\<not> SortCompare (byNewest H) a b \<le> 0 \<Longrightarrow> not_older H b a"
  using assms by (auto simp: byNewest_def SortCompare_def not_older_def)

lemma sorted_sort_insert:
  assumes "timeValue H x \<noteq> None" "\<forall>y \<in> set xs. timeValue H y \<noteq> None"
    and "sorted_wrt (not_older H) xs"
  shows "sorted_wrt (not_older H) (sort_insert (SortCompare (byNewest H)) x xs)"
  using assms
proof (induction xs)
  case Nil
  then show ?case by simp
next
  case (Cons y ys)
  show ?case
  proof (cases "SortCompare (byNewest H) x y \<le> 0")
    case True
    then have xy: "not_older H x y"
      using Cons.prems byNewest_le(1) [of H x y] by simp
    have "\<forall>z \<in> set ys. not_older H x z"
      using xy Cons.prems(3) not_older_trans by auto
    then show ?thesis using True xy Cons.prems(3) by simp
  next
    case False
    then have yx: "not_older H y x"
      using Cons.prems byNewest_le(2) [of H x y] by simp
    have "sorted_wrt (not_older H) (sort_insert (SortCompare (byNewest H)) x ys)"
      using Cons by simp
    then show ?thesis using False yx Cons.prems(3) by (auto simp: set_sort_insert)
  qed
qed

lemma sorted_stable_sort:
  assumes "\<forall>y \<in> set xs. timeValue H y \<noteq> None"
  shows "sorted_wrt (not_older H) (stable_sort (SortCompare (byNewest H)) xs)"
  using assms
proof (induction xs)
  case Nil
  then show ?case by simp
next
  case (Cons x xs)
  have "\<forall>y \<in> set (stable_sort (SortCompare (byNewest H)) xs). timeValue H y \<noteq> None"
    using Cons.prems mset_stable_sort [of "SortCompare (byNewest H)" xs] by (metis list.set_intros(2) set_mset_mset)
  then show ?case using Cons by (simp add: sorted_sort_insert)
qed

lemma sorted_newest_first: "sorted_wrt (not_older H) xs \<Longrightarrow> newest_first H xs"
  unfolding newest_first_def
  by (metis not_older_def sorted_wrt_nth_less lessI)

text \<open>The comparator of \<^verbatim>\<open>loadImages\<close> is consistent on records with valid dates.\<close>

lemma byNewest_valid:
  assumes "timeValue H a = Some ta" and "timeValue H b = Some tb"
  shows "byNewest H a b = Some (tb - ta)" and "SortCompare (byNewest H) a b = tb - ta"
  using assms by (simp_all add: byNewest_def SortCompare_def)

lemma byNewest_consistent:
  assumes "\<forall>y \<in> set xs. timeValue H y \<noteq> None"
  shows "consistent_on (byNewest H) xs"
proof -
  have some: "byNewest H a b = Some (the (timeValue H b) - the (timeValue H a))"
    if ab: "a \<in> set xs" "b \<in> set xs" for a b
  proof -
    obtain ta tb where "timeValue H a = Some ta" "timeValue H b = Some tb"
      using assms ab by fastforce
    then show ?thesis by (simp add: byNewest_def)
  qed
  then have diff: "SortCompare (byNewest H) a b = the (timeValue H b) - the (timeValue H a)"
    if "a \<in> set xs" and "b \<in> set xs" for a b
    using that by (simp add: SortCompare_def)
  show ?thesis
    unfolding consistent_on_def by (simp add: some diff)
qed

lemma Array_sort_valid:
  assumes "\<forall>y \<in> set xs. timeValue H y \<noteq> None"
  shows "Array_sort H (byNewest H) xs = stable_sort (SortCompare (byNewest H)) xs"
  using byNewest_consistent [OF assms] by (simp add: Array_sort_def)

lemma mset_Array_sort: "mset (Array_sort H cmp xs) = mset xs"
  by (simp add: Array_sort_def Let_def mset_stable_sort)

lemma length_Array_sort: "length (Array_sort H cmp xs) = length xs"
  using mset_Array_sort [of H cmp xs] by (metis size_mset)

text \<open>The engine of the example host.\<close>

lemma example_Array_sort: "Array_sort example_host cmp xs = stable_sort (SortCompare cmp) xs"
  by (simp add: Array_sort_def Let_def mset_stable_sort)

lemma loadImages_images:
  "images (loadImages H (Json (Some xs)) s) = Array_sort H (byNewest H) xs"
  by (simp add: loadImages_def Let_def updatePagination_def groupImagesByMonth_def)

text \<open>
  Claim C4, as amended. After a successful \<^verbatim>\<open>loadImages\<close> whose records all carry a
  timestamp that the host parses to a valid date, the \<open>images\<close> array holds the received
  records newest first: of every two adjacent records the earlier one's timestamp is
  greater than or equal to the later one's.
\<close>

theorem loadImages_newest_first:
  assumes "\<forall>img \<in> set xs. timeValue H img \<noteq> None"
  shows "newest_first H (images (loadImages H (Json (Some xs)) s))
    \<and> mset (images (loadImages H (Json (Some xs)) s)) = mset xs"
  using assms
  by (simp add: loadImages_images Array_sort_valid sorted_stable_sort sorted_newest_first
      mset_stable_sort)

lemma example_timeValues:
  "timeValue example_host photo_jan15 = Some 1705320000000"
  "timeValue example_host photo_jan20 = Some 1705752000000"
  "timeValue example_host photo_mar01 = Some 1709294400000"
  "timeValue example_host photo_undated = None"
  by (simp_all add: timeValue_def example_Date_def photo_jan15_def photo_jan20_def
      photo_mar01_def photo_undated_def photo_def invalid_date_def)

theorem loadImages_newest_first_witness:
  "images (loadImages example_host (Json (Some [photo_jan15, photo_mar01, photo_jan20]))
      galleryApp)
     = [photo_mar01, photo_jan20, photo_jan15]
   \<and> newest_first example_host
        (images (loadImages example_host (Json (Some [photo_jan15, photo_mar01, photo_jan20]))
           galleryApp))"
proof -
  have v: "\<forall>img \<in> set [photo_jan15, photo_mar01, photo_jan20].
      timeValue example_host img \<noteq> None"
    by (simp add: example_timeValues)
  have "images (loadImages example_host (Json (Some [photo_jan15, photo_mar01, photo_jan20]))
      galleryApp)
     = [photo_mar01, photo_jan20, photo_jan15]"
    by (simp add: loadImages_images example_Array_sort SortCompare_def byNewest_def
        example_timeValues)
  then show ?thesis
    using loadImages_newest_first [OF v, of galleryApp] by simp
qed

text \<open>
  A record without a valid date has no time value to compare, so no order of an array of
  two or more records that holds it is newest first, whatever the host and its engine.
\<close>

lemma undated_not_newest_first:
  assumes "timeValue H x = None" and "x \<in> set ys" and "2 \<le> length ys"
  shows "\<not> newest_first H ys"
proof
  assume nf: "newest_first H ys"
  obtain i where i: "i < length ys" and x: "ys ! i = x"
    using assms(2) by (auto simp: in_set_conv_nth)
  show False
  proof (cases "Suc i < length ys")
    case True
    then show ?thesis
      using nf x assms(1) unfolding newest_first_def by fastforce
  next
    case False
    then obtain j where j: "i = Suc j"
      using i assms(3) by (cases i) auto
    then have "Suc j < length ys" using i by simp
    then show ?thesis
      using nf x j assms(1) unfolding newest_first_def by fastforce
  qed
qed

lemma loadImages_undated_any_host:
  assumes "timeValue H x = None" and "x \<in> set xs" and "2 \<le> length xs"
  shows "\<not> newest_first H (images (loadImages H (Json (Some xs)) s))"
proof -
  have m: "mset (images (loadImages H (Json (Some xs)) s)) = mset xs"
    by (simp add: loadImages_images mset_Array_sort)
  have "x \<in> set (images (loadImages H (Json (Some xs)) s))"
    using assms(2) m by (metis set_mset_mset)
  moreover have "2 \<le> length (images (loadImages H (Json (Some xs)) s))"
    using assms(3) m by (metis size_mset)
  ultimately show ?thesis
    using assms(1) by (intro undated_not_newest_first)
qed

text \<open>
  Claim C4 as stated fails: a successful load of a dated and an undated record. Whatever
  order the engine leaves the two records in, the undated one has no timestamp for the
  adjacent pair to be ordered by.
\<close>

theorem loadImages_undated:
  "images (loadImages example_host (Json (Some [photo_jan15, photo_undated])) galleryApp)
     = [photo_jan15, photo_undated]
   \<and> timeValue example_host photo_undated = None
   \<and> \<not> newest_first example_host
        (images (loadImages example_host (Json (Some [photo_jan15, photo_undated]))
           galleryApp))"
proof -
  have i: "images (loadImages example_host (Json (Some [photo_jan15, photo_undated])) galleryApp)
     = [photo_jan15, photo_undated]"
    by (simp add: loadImages_images example_Array_sort SortCompare_def byNewest_def
        example_timeValues)
  have "\<not> newest_first example_host
      (images (loadImages example_host (Json (Some [photo_jan15, photo_undated])) galleryApp))"
    by (rule loadImages_undated_any_host [of _ photo_undated])
       (simp_all add: example_timeValues)
  then show ?thesis
    using i by (simp add: example_timeValues)
qed

subsection \<open>Grouping by month\<close>

lemma object_update_keys: "map fst (object_update k f G) = map fst G"
  by (induction G) auto

lemma object_update_absent: "k \<notin> fst ` set G \<Longrightarrow> object_update k f G = G"
  by (induction G) auto

lemma object_update_append_new:
  "k \<notin> fst ` set G \<Longrightarrow> object_update k f (G @ [(k, g)]) = G @ [(k, f g)]"
  by (induction G) auto

lemma object_update_distinct:
  "distinct (map fst G) \<Longrightarrow>
     object_update k f G = map (\<lambda>(k', g). (k', if k' = k then f g else g)) G"
proof (induction G)
  case Nil
  then show ?case by simp
next
  case (Cons e G)
  obtain k' g where e: "e = (k', g)" by (cases e)
  show ?case
  proof (cases "k' = k")
    case True
    then have "k \<notin> fst ` set G" using Cons.prems e by auto
    then have "map (\<lambda>(k', g). (k', if k' = k then f g else g)) G = G"
      by (intro map_idI) force
    then show ?thesis using True e by simp
  next
    case False
    then show ?thesis using Cons e by simp
  qed
qed

lemma all_photos_simps:
  "all_photos [] = []"
  "all_photos ((k, g) # G) = photos g @ all_photos G"
  "all_photos (G @ H) = all_photos G @ all_photos H"
  by (simp_all add: all_photos_def)

lemma object_update_photos:
  "map_of G k \<noteq> None \<Longrightarrow>
     mset (all_photos (object_update k (group_push x) G)) = add_mset x (mset (all_photos G))"
  by (induction G) (auto simp: group_push_def all_photos_simps)

lemma group_image_photos:
  "mset (all_photos (group_image H G x)) = add_mset x (mset (all_photos G))"
proof (cases "map_of G (month_key H x)")
  case None
  then have "month_key H x \<notin> fst ` set G"
    by (simp add: map_of_eq_None_iff)
  then have "group_image H G x
      = G @ [(month_key H x, group_push x (new_group (Date H (timestamp x))))]"
    using None by (simp add: group_image_def Let_def object_update_append_new flip: month_key_def)
  then show ?thesis
    by (simp add: all_photos_simps group_push_def new_group_def)
next
  case (Some g)
  then have "group_image H G x = object_update (month_key H x) (group_push x) G"
    by (simp add: group_image_def Let_def flip: month_key_def)
  then show ?thesis
    using Some by (simp add: object_update_photos)
qed

lemma grouped_photos: "mset (all_photos (foldl (group_image H) [] xs)) = mset xs"
  by (induction xs rule: rev_induct) (simp_all add: group_image_photos all_photos_simps)

lemma group_image_map:
  assumes "distinct (map fst G)"
  shows "group_image H G x =
     map (\<lambda>(k', g). (k', if k' = month_key H x then group_push x g else g))
       (if month_key H x \<in> fst ` set G then G
        else G @ [(month_key H x, new_group (Date H (timestamp x)))])"
proof -
  have "distinct (map fst (G @ [(month_key H x, new_group (Date H (timestamp x)))]))"
    if "month_key H x \<notin> fst ` set G"
    using assms that by simp
  then show ?thesis
    using assms
    by (simp add: group_image_def Let_def map_of_eq_None_iff object_update_distinct
        flip: month_key_def)
qed

lemma groups_ok_step:
  assumes "groups_ok H xs G"
  shows "groups_ok H (xs @ [x]) (group_image H G x)"
proof -
  let ?k = "month_key H x"
  let ?G0 = "if ?k \<in> fst ` set G then G else G @ [(?k, new_group (Date H (timestamp x)))]"
  let ?upd = "\<lambda>(k', g). (k', if k' = ?k then group_push x g else g)"
  have d: "distinct (map fst G)" and keys: "fst ` set G = month_key H ` set xs"
    and each: "\<And>k g. (k, g) \<in> set G \<Longrightarrow>
        photos g = filter (\<lambda>p. month_key H p = k) xs \<and> count_field g = length (photos g)"
    using assms by (auto simp: groups_ok_def)
  have G': "group_image H G x = map ?upd ?G0"
    using d by (rule group_image_map)
  have fst_upd: "map fst (map ?upd ?G0) = map fst ?G0"
    by (simp add: case_prod_unfold comp_def)
  have d0: "distinct (map fst ?G0)" using d by simp
  have keys0: "fst ` set ?G0 = month_key H ` set (xs @ [x])"
    using keys by auto
  have each0: "photos g = filter (\<lambda>p. month_key H p = k) xs \<and> count_field g = length (photos g)"
    if "(k, g) \<in> set ?G0" for k g
  proof (cases "(k, g) \<in> set G")
    case True
    then show ?thesis using each by simp
  next
    case False
    then have new: "k = ?k" "g = new_group (Date H (timestamp x))" and "?k \<notin> fst ` set G"
      using that by (auto split: if_splits)
    then have "\<forall>p \<in> set xs. month_key H p \<noteq> k"
      using keys by (metis imageI)
    then have "filter (\<lambda>p. month_key H p = k) xs = []"
      by (simp add: filter_empty_conv)
    then show ?thesis using new by (simp add: new_group_def)
  qed
  have each': "photos g' = filter (\<lambda>p. month_key H p = k) (xs @ [x])
      \<and> count_field g' = length (photos g')"
    if "(k, g') \<in> set (map ?upd ?G0)" for k g'
  proof -
    from that obtain g where in0: "(k, g) \<in> set ?G0"
      and g': "g' = (if k = ?k then group_push x g else g)"
      by auto
    from each0 [OF in0] show ?thesis
      using g' by (auto simp: group_push_def)
  qed
  have "distinct (map fst (map ?upd ?G0))"
    by (simp only: fst_upd d0)
  moreover have "fst ` set (map ?upd ?G0) = month_key H ` set (xs @ [x])"
    using keys0 fst_upd by (metis set_map)
  ultimately show ?thesis
    unfolding G' groups_ok_def using each' by blast
qed

lemma groups_ok_grouped: "groups_ok H xs (foldl (group_image H) [] xs)"
proof (induction xs rule: rev_induct)
  case Nil
  show ?case by (simp add: groups_ok_def)
next
  case (snoc x xs)
  then show ?case by (simp add: groups_ok_step)
qed

lemma sum_counts:
  assumes "\<forall>(k, g) \<in> set G. count_field g = length (photos g)"
  shows "sum_list (map (\<lambda>(k, g). count_field g) G) = length (all_photos G)"
  using assms by (induction G) (auto simp: all_photos_simps)

text \<open>
  Claim C7. \<^verbatim>\<open>groupImagesByMonth\<close> partitions the images by calendar month: the month
  keys are distinct, the group of a month holds exactly the images of that month (in the
  order of the list), every image's month has a group, each group's \<open>count\<close> is the
  length of its \<open>photos\<close>, all the groups' photos together are the images (as a
  multiset), and the counts add up to the number of images.
\<close>

theorem groupImagesByMonth_partition:
  "distinct (map fst (groupedImages (groupImagesByMonth H s)))
   \<and> (\<forall>(k, g) \<in> set (groupedImages (groupImagesByMonth H s)).
         photos g = filter (\<lambda>p. month_key H p = k) (images s)
         \<and> count_field g = length (photos g))
   \<and> (\<forall>p \<in> set (images s). month_key H p \<in> fst ` set (groupedImages (groupImagesByMonth H s)))
   \<and> mset (all_photos (groupedImages (groupImagesByMonth H s))) = mset (images s)
   \<and> sum_list (map (\<lambda>(k, g). count_field g) (groupedImages (groupImagesByMonth H s)))
       = length (images s)"
proof -
  let ?G = "foldl (group_image H) [] (images s)"
  have G: "groupedImages (groupImagesByMonth H s) = ?G"
    by (simp add: groupImagesByMonth_def)
  have ok: "groups_ok H (images s) ?G"
    by (rule groups_ok_grouped)
  have m: "mset (all_photos ?G) = mset (images s)"
    by (rule grouped_photos)
  have "sum_list (map (\<lambda>(k, g). count_field g) ?G) = length (all_photos ?G)"
    using ok by (intro sum_counts) (auto simp: groups_ok_def)
  also have "\<dots> = length (images s)"
    using m by (metis size_mset)
  finally have c: "sum_list (map (\<lambda>(k, g). count_field g) ?G) = length (images s)" .
  show ?thesis
    unfolding G using ok m c by (auto simp: groups_ok_def)
qed

lemma gallery3_groups:
  "groupedImages (groupImagesByMonth example_host gallery3)
     = [(''March 2024'', march_group), (''January 2024'', january_group)]"
  by (simp add: groupImagesByMonth_def gallery3_def galleryApp_def group_image_def Let_def
      photo_mar01_def photo_jan20_def photo_jan15_def photo_def example_Date_def new_group_def
      group_push_def march_group_def january_group_def)

theorem groupImagesByMonth_partition_witness:
  "groupedImages (groupImagesByMonth example_host gallery3)
     = [(''March 2024'', march_group), (''January 2024'', january_group)]
   \<and> count_field march_group = length (photos march_group)
   \<and> count_field january_group = length (photos january_group)
   \<and> photos january_group = filter (\<lambda>p. month_key example_host p = ''January 2024'') (images gallery3)
   \<and> mset (photos march_group @ photos january_group) = mset (images gallery3)
   \<and> count_field march_group + count_field january_group = length (images gallery3)"
  using groupImagesByMonth_partition [of example_host gallery3]
  unfolding gallery3_groups
  by (simp add: all_photos_simps march_group_def january_group_def gallery3_def galleryApp_def
      month_key_def photo_mar01_def photo_jan20_def photo_jan15_def photo_def example_Date_def)




subsection \<open>Lightbox navigation\<close>

lemma Array_get_in_range:
  "0 \<le> i \<Longrightarrow> i < int (length xs) \<Longrightarrow> Array_get xs i = Some (xs ! nat i)"
  by (simp add: Array_get_def)

text \<open>
  Claim C9, as amended. In a state with a non-empty \<open>images\<close> list and
  \<open>0 \<le> currentIndex < images.length\<close>, \<^verbatim>\<open>nextImage\<close> and \<^verbatim>\<open>prevImage\<close> keep
  the index within that bound; when the index moves (by exactly one) \<open>currentImage\<close>
  becomes \<open>images[currentIndex]\<close>, and if \<open>currentImage\<close> was \<open>images[currentIndex]\<close>
  before the call it is so afterwards; at the last index \<^verbatim>\<open>nextImage\<close> changes nothing,
  and at index 0 \<^verbatim>\<open>prevImage\<close> changes nothing.
\<close>

theorem lightbox_navigation:
  assumes "images s \<noteq> []" and "0 \<le> currentIndex s" and "currentIndex s < int (length (images s))"
  shows "0 \<le> currentIndex (nextImage s) \<and> currentIndex (nextImage s) < int (length (images (nextImage s)))
    \<and> 0 \<le> currentIndex (prevImage s) \<and> currentIndex (prevImage s) < int (length (images (prevImage s)))
    \<and> (currentIndex (nextImage s) \<noteq> currentIndex s \<longrightarrow>
          currentIndex (nextImage s) = currentIndex s + 1
          \<and> currentImage (nextImage s) = Some (images (nextImage s) ! nat (currentIndex (nextImage s))))
    \<and> (currentIndex (prevImage s) \<noteq> currentIndex s \<longrightarrow>
          currentIndex (prevImage s) = currentIndex s - 1
          \<and> currentImage (prevImage s) = Some (images (prevImage s) ! nat (currentIndex (prevImage s))))
    \<and> (currentImage s = Some (images s ! nat (currentIndex s)) \<longrightarrow>
          currentImage (nextImage s) = Some (images (nextImage s) ! nat (currentIndex (nextImage s)))
          \<and> currentImage (prevImage s) = Some (images (prevImage s) ! nat (currentIndex (prevImage s))))
    \<and> (currentIndex s = int (length (images s)) - 1 \<longrightarrow> nextImage s = s)
    \<and> (currentIndex s = 0 \<longrightarrow> prevImage s = s)"
  using assms by (auto simp: nextImage_def prevImage_def Let_def Array_get_def)

lemma stale_fields:
  "images gallery_stale = [photo_mar01, photo_jan15]"
  "currentIndex gallery_stale = 0"
  "currentImage gallery_stale = Some photo_jan15"
  by (simp_all add: gallery_stale_def autoRefreshPoll_def loadImages_def Let_def
      updatePagination_def groupImagesByMonth_def openLightbox_def showNotification_def
      example_Array_sort SortCompare_def byNewest_def example_timeValues galleryApp_def
      example_ids)

lemma photos_differ: "photo_jan15 \<noteq> photo_mar01"
  by (simp add: photo_jan15_def photo_mar01_def photo_def)

text \<open>
  Claim C9 as stated fails: with the lightbox open on the first image, a poll that brings a
  newer image leaves \<open>currentImage\<close> on the old record while \<open>images[0]\<close> is the new
  one; \<^verbatim>\<open>prevImage\<close> at index 0 changes nothing, so afterwards \<open>currentImage\<close> is not
  \<open>images[currentIndex]\<close>.
\<close>

theorem lightbox_navigation_stale:
  "images gallery_stale \<noteq> [] \<and> 0 \<le> currentIndex gallery_stale
   \<and> currentIndex gallery_stale < int (length (images gallery_stale))
   \<and> currentImage (prevImage gallery_stale)
       \<noteq> Array_get (images (prevImage gallery_stale)) (currentIndex (prevImage gallery_stale))"
  by (simp add: prevImage_def stale_fields Array_get_def photos_differ)

theorem lightbox_navigation_witness:
  "currentIndex (nextImage gallery_stale) = 1
   \<and> currentImage (nextImage gallery_stale) = Some photo_jan15
   \<and> prevImage gallery_stale = gallery_stale
   \<and> nextImage (nextImage gallery_stale) = nextImage gallery_stale
   \<and> currentIndex (prevImage (nextImage gallery_stale)) = 0
   \<and> currentImage (prevImage (nextImage gallery_stale)) = Some photo_mar01"
proof -
  have a: "images gallery_stale \<noteq> []" "0 \<le> currentIndex gallery_stale"
    "currentIndex gallery_stale < int (length (images gallery_stale))"
    by (simp_all add: stale_fields)
  have n: "images (nextImage gallery_stale) = [photo_mar01, photo_jan15]"
    "currentIndex (nextImage gallery_stale) = 1"
    by (simp_all add: nextImage_def stale_fields)
  have b: "images (nextImage gallery_stale) \<noteq> []" "0 \<le> currentIndex (nextImage gallery_stale)"
    "currentIndex (nextImage gallery_stale) < int (length (images (nextImage gallery_stale)))"
    by (simp_all add: n)
  have p: "currentIndex (prevImage (nextImage gallery_stale)) = 0"
    "images (prevImage (nextImage gallery_stale)) = [photo_mar01, photo_jan15]"
    by (simp_all add: prevImage_def n)
  show ?thesis
    using lightbox_navigation [OF a] lightbox_navigation [OF b]
    by (simp add: stale_fields n p)
qed



subsection \<open>Selection\<close>

lemma findIndex_ge: "- 1 \<le> Array_findIndex P xs"
  by (induction xs) (auto simp: Let_def)

lemma findIndex_found: "Array_findIndex P xs > - 1 \<longleftrightarrow> list_ex P xs"
proof (induction xs)
  case Nil
  show ?case by simp
next
  case (Cons x xs)
  then show ?case
    using findIndex_ge [of P xs] by (auto simp: Let_def)
qed

lemma splice_findIndex:
  "list_ex P xs \<Longrightarrow> Array_splice1 xs (Array_findIndex P xs) = remove_first P xs"
proof (induction xs)
  case Nil
  then show ?case by simp
next
  case (Cons x xs)
  show ?case
  proof (cases "P x")
    case True
    then show ?thesis by (simp add: Array_splice1_def)
  next
    case False
    then have ex: "list_ex P xs" using Cons.prems by simp
    then have pos: "0 \<le> Array_findIndex P xs"
      using findIndex_found [of P xs] by simp
    have "Array_splice1 xs (Array_findIndex P xs) = remove_first P xs"
      using ex by (rule Cons.IH)
    then show ?thesis
      using False pos by (simp add: Array_splice1_def Let_def nat_add_distrib)
  qed
qed

lemma togglePhotoSelection_selected:
  "selectedPhotos (togglePhotoSelection p s) =
     (if isPhotoSelected s p then remove_first (\<lambda>q. id_field q = id_field p) (selectedPhotos s)
      else selectedPhotos s @ [p])"
  using findIndex_found [of "\<lambda>q. id_field q = id_field p" "selectedPhotos s"]
  by (simp add: togglePhotoSelection_def isPhotoSelected_def Let_def splice_findIndex)

lemma distinct_remove_first:
  "distinct (map f xs) \<Longrightarrow> distinct (map f (remove_first P xs))
     \<and> set (remove_first P xs) \<subseteq> set xs"
  by (induction xs) auto

lemma remove_first_gone:
  "distinct (map f xs) \<Longrightarrow> \<not> list_ex (\<lambda>q. f q = v) (remove_first (\<lambda>q. f q = v) xs)"
proof (induction xs)
  case Nil
  show ?case by simp
next
  case (Cons a xs)
  show ?case
  proof (cases "f a = v")
    case True
    have "f a \<notin> f ` set xs" using Cons.prems by simp
    then have "\<forall>q \<in> set xs. f q \<noteq> v" using True by blast
    then show ?thesis using True by (simp add: list_ex_iff)
  next
    case False
    then show ?thesis using Cons by simp
  qed
qed

lemma remove_first_others:
  "v \<noteq> w \<Longrightarrow> list_ex (\<lambda>q. f q = w) (remove_first (\<lambda>q. f q = v) xs) = list_ex (\<lambda>q. f q = w) xs"
  by (induction xs) (auto simp: list_ex_iff)

lemma toggle_distinct: "distinct_ids s \<Longrightarrow> distinct_ids (togglePhotoSelection p s)"
  using distinct_remove_first [of id_field "selectedPhotos s" "\<lambda>q. id_field q = id_field p"]
  by (auto simp: distinct_ids_def togglePhotoSelection_selected isPhotoSelected_def list_ex_iff)

lemma selectAll_fold_distinct:
  "distinct_ids t \<Longrightarrow>
     distinct_ids (foldl (\<lambda>t photo. if \<not> isPhotoSelected t photo
                       then t\<lparr>selectedPhotos := selectedPhotos t @ [photo]\<rparr> else t) t ps)"
proof (induction ps arbitrary: t)
  case Nil
  then show ?case by simp
next
  case (Cons p ps)
  have "distinct_ids (if \<not> isPhotoSelected t p
      then t\<lparr>selectedPhotos := selectedPhotos t @ [p]\<rparr> else t)"
    using Cons.prems by (auto simp: distinct_ids_def isPhotoSelected_def list_ex_iff)
  then show ?case using Cons.IH by simp
qed

lemma reachable_distinct: "selection_reachable s \<Longrightarrow> distinct_ids s"
proof (induction rule: selection_reachable.induct)
  case (empty s)
  then show ?case by (simp add: distinct_ids_def)
next
  case (toggle s p)
  then show ?case by (simp add: toggle_distinct)
next
  case (select_all s)
  then show ?case by (simp add: selectAllVisible_def selectAll_fold_distinct)
next
  case (mode s)
  then show ?case by (simp add: toggleSelectionMode_def distinct_ids_def Let_def)
next
  case (other s s')
  then show ?case by (simp add: distinct_ids_def)
qed

lemma toggle_flips:
  assumes "distinct_ids s"
  shows "isPhotoSelected (togglePhotoSelection p s) p = (\<not> isPhotoSelected s p)"
proof (cases "isPhotoSelected s p")
  case True
  then show ?thesis
    using assms remove_first_gone [of id_field "selectedPhotos s" "id_field p"]
    by (simp add: isPhotoSelected_def togglePhotoSelection_selected distinct_ids_def)
next
  case False
  then show ?thesis
    by (simp add: isPhotoSelected_def togglePhotoSelection_selected)
qed

text \<open>
  Claim C10. In every selection that the application can hold, one call of
  \<^verbatim>\<open>togglePhotoSelection(p)\<close> negates \<^verbatim>\<open>isPhotoSelected(p)\<close>, two calls restore it
  (membership decided by id equality), and photos with another id are not affected.
\<close>

theorem toggle_selection_involutive:
  assumes "selection_reachable s"
  shows "isPhotoSelected (togglePhotoSelection p s) p = (\<not> isPhotoSelected s p)
    \<and> isPhotoSelected (togglePhotoSelection p (togglePhotoSelection p s)) p = isPhotoSelected s p
    \<and> (id_field q \<noteq> id_field p \<longrightarrow>
         isPhotoSelected (togglePhotoSelection p s) q = isPhotoSelected s q)"
proof -
  have d: "distinct_ids s"
    using assms by (rule reachable_distinct)
  have d': "distinct_ids (togglePhotoSelection p s)"
    using d by (rule toggle_distinct)
  have once: "isPhotoSelected (togglePhotoSelection p s) p = (\<not> isPhotoSelected s p)"
    using d by (rule toggle_flips)
  have twice: "isPhotoSelected (togglePhotoSelection p (togglePhotoSelection p s)) p
      = (\<not> isPhotoSelected (togglePhotoSelection p s) p)"
    using d' by (rule toggle_flips)
  have others: "isPhotoSelected (togglePhotoSelection p s) q = isPhotoSelected s q"
    if "id_field q \<noteq> id_field p"
    using that remove_first_others [of "id_field p" "id_field q" id_field "selectedPhotos s"]
    by (auto simp: isPhotoSelected_def togglePhotoSelection_selected)
  show ?thesis using once twice others by simp
qed

lemma gallery3_displayed:
  "displayedImages (updatePagination example_host gallery3) = [photo_mar01, photo_jan20, photo_jan15]"
  "selectedPhotos (updatePagination example_host gallery3) = []"
  by (simp_all add: updatePagination_def gallery3_def filteredImages_def Let_def galleryApp_def
      trim_empty Math_ceil_quot_def photosPerPage_def Array_slice_page)

lemma gallery_selecting_selected:
  "selectedPhotos gallery_selecting = [photo_mar01, photo_jan20, photo_jan15]"
  by (simp add: gallery_selecting_def selectAllVisible_def gallery3_displayed
      isPhotoSelected_def example_ids)

lemma gallery_selecting_reachable: "selection_reachable gallery_selecting"
  unfolding gallery_selecting_def
  by (rule selection_reachable.select_all, rule selection_reachable.empty)
     (simp add: updatePagination_def Let_def gallery3_def galleryApp_def)

theorem toggle_selection_involutive_witness:
  "selection_reachable gallery_selecting
   \<and> isPhotoSelected gallery_selecting photo_jan20
   \<and> \<not> isPhotoSelected (togglePhotoSelection photo_jan20 gallery_selecting) photo_jan20
   \<and> isPhotoSelected (togglePhotoSelection photo_jan20
         (togglePhotoSelection photo_jan20 gallery_selecting)) photo_jan20
   \<and> isPhotoSelected (togglePhotoSelection photo_jan20 gallery_selecting) photo_mar01"
proof -
  have sel: "isPhotoSelected gallery_selecting photo_jan20"
    "isPhotoSelected gallery_selecting photo_mar01"
    by (simp_all add: isPhotoSelected_def gallery_selecting_selected example_ids)
  have ids: "id_field photo_mar01 \<noteq> id_field photo_jan20"
    by (simp add: example_ids)
  show ?thesis
    using toggle_selection_involutive [OF gallery_selecting_reachable, of photo_jan20 photo_mar01]
      gallery_selecting_reachable sel ids
    by simp
qed



subsection \<open>Slideshow\<close>

lemma startSlideshow_empty: "images s = [] \<Longrightarrow> startSlideshow s = s"
  by (simp add: startSlideshow_def)

lemma startSlideshow_fields:
  assumes "images s \<noteq> []"
  shows "images (startSlideshow s) = images s"
    and "currentIndex (startSlideshow s) = 0"
    and "slideshowActive (startSlideshow s)"
    and "slideshowInterval (startSlideshow s)"
    and "liveIntervals (startSlideshow s) = liveIntervals s + 1"
    and "currentImage (startSlideshow s) = Some (images s ! 0)"
  using assms by (simp_all add: startSlideshow_def showNotification_def Let_def Array_get_def)

lemma stopSlideshow_fields:
  "images (stopSlideshow s) = images s"
  "currentIndex (stopSlideshow s) = currentIndex s"
  "currentImage (stopSlideshow s) = currentImage s"
  "\<not> slideshowActive (stopSlideshow s)"
  "\<not> slideshowInterval (stopSlideshow s)"
  "liveIntervals (stopSlideshow s) = liveIntervals s - (if slideshowInterval s then 1 else 0)"
  by (simp_all add: stopSlideshow_def showNotification_def Let_def)

lemma nextImage_fields:
  "images (nextImage s) = images s"
  "slideshowActive (nextImage s) = slideshowActive s"
  "slideshowInterval (nextImage s) = slideshowInterval s"
  "liveIntervals (nextImage s) = liveIntervals s"
  "currentIndex (nextImage s)
     = (if currentIndex s < int (length (images s)) - 1 then currentIndex s + 1
        else currentIndex s)"
  by (simp_all add: nextImage_def Let_def)

text \<open>What one run of the timer's callback does, in any state.\<close>

lemma slideshowTick_index:
  "images (slideshowTick s) = images s"
  "currentIndex (slideshowTick s)
     = (if currentIndex s < int (length (images s)) - 1 then currentIndex s + 1
        else currentIndex s)"
  by (simp_all add: slideshowTick_def Let_def stopSlideshow_fields nextImage_fields)

lemma slideshowTick_stops:
  assumes "currentIndex (slideshowTick s) = int (length (images s)) - 1"
  shows "\<not> slideshowActive (slideshowTick s)" and "\<not> slideshowInterval (slideshowTick s)"
    and "liveIntervals (slideshowTick s)
           = liveIntervals s - (if slideshowInterval s then 1 else 0)"
proof -
  have "currentIndex (nextImage s) = int (length (images (nextImage s))) - 1"
    using assms by (simp add: slideshowTick_index nextImage_fields)
  then have "slideshowTick s = stopSlideshow (nextImage s)"
    by (simp add: slideshowTick_def Let_def)
  then show "\<not> slideshowActive (slideshowTick s)" and "\<not> slideshowInterval (slideshowTick s)"
    and "liveIntervals (slideshowTick s)
           = liveIntervals s - (if slideshowInterval s then 1 else 0)"
    by (simp_all add: stopSlideshow_fields nextImage_fields)
qed

lemma slideshowTick_goes_on:
  assumes "currentIndex (slideshowTick s) \<noteq> int (length (images s)) - 1"
  shows "slideshowActive (slideshowTick s) = slideshowActive s"
    and "slideshowInterval (slideshowTick s) = slideshowInterval s"
    and "liveIntervals (slideshowTick s) = liveIntervals s"
proof -
  have "currentIndex (nextImage s) \<noteq> int (length (images (nextImage s))) - 1"
    using assms by (simp add: slideshowTick_index nextImage_fields)
  then have "slideshowTick s = nextImage s"
    by (simp add: slideshowTick_def Let_def)
  then show "slideshowActive (slideshowTick s) = slideshowActive s"
    and "slideshowInterval (slideshowTick s) = slideshowInterval s"
    and "liveIntervals (slideshowTick s) = liveIntervals s"
    by (simp_all add: nextImage_fields)
qed

text \<open>A run of ticks after the start.\<close>

lemma slideshow_inv_start:
  "images s \<noteq> [] \<Longrightarrow>
     slideshow_inv (length (images s)) (liveIntervals s) 0 (startSlideshow s)"
  by (cases "images s") (simp_all add: slideshow_inv_def startSlideshow_fields)

lemma slideshow_inv_step:
  assumes "slideshow_inv n m k t" and "0 < n"
  shows "slideshow_inv n m (Suc k) (timer_fires t)"
proof (cases "liveIntervals t > 0")
  case False
  then have idle: "timer_fires t = t" and off: "\<not> slideshowActive t"
    using assms by (auto simp: timer_fires_def slideshow_inv_def)
  then have "int n - 1 \<le> int k"
    using assms by (auto simp: slideshow_inv_def)
  then show ?thesis
    using assms idle off by (auto simp: slideshow_inv_def)
next
  case True
  then have fires: "timer_fires t = slideshowTick t"
    by (simp add: timer_fires_def)
  have len: "length (images t) = n" and idx: "currentIndex t = min (int k) (int n - 1)"
    and act: "slideshowActive t = (k = 0 \<or> int k < int n - 1)"
    and han: "slideshowInterval t = slideshowActive t"
    and live: "liveIntervals t = m + (if slideshowActive t then 1 else 0)"
    using assms(1) by (simp_all add: slideshow_inv_def)
  have idx': "currentIndex (slideshowTick t) = min (int (Suc k)) (int n - 1)"
    using len idx assms(2) by (auto simp: slideshowTick_index)
  show ?thesis
  proof (cases "currentIndex (slideshowTick t) = int (length (images t)) - 1")
    case True
    then have "int n - 1 \<le> int (Suc k)"
      using idx' len by simp
    then show ?thesis
      using slideshowTick_stops [OF True] len idx' han live fires
      by (auto simp: slideshow_inv_def slideshowTick_index)
  next
    case False
    then have "int (Suc k) < int n - 1"
      using idx' len by auto
    then show ?thesis
      using slideshowTick_goes_on [OF False] len idx' act han live fires
      by (auto simp: slideshow_inv_def slideshowTick_index)
  qed
qed

lemma slideshow_inv_after:
  "images s \<noteq> [] \<Longrightarrow>
     slideshow_inv (length (images s)) (liveIntervals s) k (after_ticks k (startSlideshow s))"
proof (induction k)
  case 0
  then show ?case by (simp add: slideshow_inv_start)
next
  case (Suc k)
  then show ?case by (simp add: slideshow_inv_step)
qed

text \<open>
  Claim C6, as amended. Starting a slideshow on an empty list changes nothing; on a
  non-empty list it sets \<open>currentIndex\<close> to 0 and registers a timer. In any state, a
  tick of the timer advances \<open>currentIndex\<close> by exactly one when
  \<open>currentIndex < images.length - 1\<close> and leaves it as it is otherwise, so a tick never
  moves \<open>currentIndex\<close> beyond \<open>images.length - 1\<close>; the tick after which
  \<open>currentIndex\<close> is \<open>images.length - 1\<close> stops the slideshow (the flag is reset and
  the stored timer cleared), and any other tick leaves it running. In a run of ticks after
  the start with nothing else in between, \<open>currentIndex\<close> after \<open>k\<close> ticks is
  \<open>min k (images.length - 1)\<close>, and the slideshow is active, with its timer registered,
  exactly while \<open>k = 0\<close> or \<open>k < images.length - 1\<close>.
\<close>

theorem slideshow_tick:
  "(images s = [] \<longrightarrow> startSlideshow s = s)
   \<and> (images s \<noteq> [] \<longrightarrow>
        images (startSlideshow s) = images s \<and> currentIndex (startSlideshow s) = 0
        \<and> slideshowActive (startSlideshow s) \<and> slideshowInterval (startSlideshow s)
        \<and> liveIntervals (startSlideshow s) = liveIntervals s + 1)
   \<and> images (slideshowTick s) = images s
   \<and> (currentIndex s < int (length (images s)) - 1 \<longrightarrow>
        currentIndex (slideshowTick s) = currentIndex s + 1)
   \<and> (int (length (images s)) - 1 \<le> currentIndex s \<longrightarrow>
        currentIndex (slideshowTick s) = currentIndex s)
   \<and> (currentIndex s \<le> int (length (images s)) - 1 \<longrightarrow>
        currentIndex (slideshowTick s) \<le> int (length (images s)) - 1)
   \<and> (currentIndex (slideshowTick s) = int (length (images s)) - 1 \<longrightarrow>
        \<not> slideshowActive (slideshowTick s) \<and> \<not> slideshowInterval (slideshowTick s)
        \<and> liveIntervals (slideshowTick s)
            = liveIntervals s - (if slideshowInterval s then 1 else 0))
   \<and> (currentIndex (slideshowTick s) \<noteq> int (length (images s)) - 1 \<longrightarrow>
        slideshowActive (slideshowTick s) = slideshowActive s
        \<and> slideshowInterval (slideshowTick s) = slideshowInterval s
        \<and> liveIntervals (slideshowTick s) = liveIntervals s)
   \<and> (images s \<noteq> [] \<longrightarrow>
        currentIndex (after_ticks k (startSlideshow s))
          = min (int k) (int (length (images s)) - 1)
        \<and> slideshowActive (after_ticks k (startSlideshow s))
            = (k = 0 \<or> int k < int (length (images s)) - 1)
        \<and> slideshowInterval (after_ticks k (startSlideshow s))
            = slideshowActive (after_ticks k (startSlideshow s))
        \<and> liveIntervals (after_ticks k (startSlideshow s))
            = liveIntervals s + (if slideshowActive (after_ticks k (startSlideshow s)) then 1 else 0))"
proof -
  have start: "images s \<noteq> [] \<longrightarrow>
        images (startSlideshow s) = images s \<and> currentIndex (startSlideshow s) = 0
        \<and> slideshowActive (startSlideshow s) \<and> slideshowInterval (startSlideshow s)
        \<and> liveIntervals (startSlideshow s) = liveIntervals s + 1"
    by (simp add: startSlideshow_fields)
  have index: "(currentIndex s < int (length (images s)) - 1 \<longrightarrow>
        currentIndex (slideshowTick s) = currentIndex s + 1)
      \<and> (int (length (images s)) - 1 \<le> currentIndex s \<longrightarrow>
        currentIndex (slideshowTick s) = currentIndex s)
      \<and> (currentIndex s \<le> int (length (images s)) - 1 \<longrightarrow>
        currentIndex (slideshowTick s) \<le> int (length (images s)) - 1)"
    by (simp add: slideshowTick_index)
  have stops: "currentIndex (slideshowTick s) = int (length (images s)) - 1 \<longrightarrow>
        \<not> slideshowActive (slideshowTick s) \<and> \<not> slideshowInterval (slideshowTick s)
        \<and> liveIntervals (slideshowTick s)
            = liveIntervals s - (if slideshowInterval s then 1 else 0)"
    using slideshowTick_stops [of s] by blast
  have goes_on: "currentIndex (slideshowTick s) \<noteq> int (length (images s)) - 1 \<longrightarrow>
        slideshowActive (slideshowTick s) = slideshowActive s
        \<and> slideshowInterval (slideshowTick s) = slideshowInterval s
        \<and> liveIntervals (slideshowTick s) = liveIntervals s"
    using slideshowTick_goes_on [of s] by blast
  have run: "images s \<noteq> [] \<longrightarrow>
        currentIndex (after_ticks k (startSlideshow s))
          = min (int k) (int (length (images s)) - 1)
        \<and> slideshowActive (after_ticks k (startSlideshow s))
            = (k = 0 \<or> int k < int (length (images s)) - 1)
        \<and> slideshowInterval (after_ticks k (startSlideshow s))
            = slideshowActive (after_ticks k (startSlideshow s))
        \<and> liveIntervals (after_ticks k (startSlideshow s))
            = liveIntervals s + (if slideshowActive (after_ticks k (startSlideshow s)) then 1 else 0)"
    using slideshow_inv_after [of s k] unfolding slideshow_inv_def by blast
  show ?thesis
    using startSlideshow_empty [of s] start slideshowTick_index(1) [of s] index stops goes_on run
    by blast
qed

text \<open>
  Claim C6 as stated fails on a single image: the slideshow is active after the start, and
  its first tick does not advance \<open>currentIndex\<close>.
\<close>

theorem slideshow_single_image:
  "slideshowActive (startSlideshow gallery1)
   \<and> liveIntervals (startSlideshow gallery1) = 1
   \<and> currentIndex (startSlideshow gallery1) = 0
   \<and> currentIndex (timer_fires (startSlideshow gallery1)) = 0
   \<and> currentIndex (timer_fires (startSlideshow gallery1))
       \<noteq> currentIndex (startSlideshow gallery1) + 1"
  by (simp add: gallery1_def galleryApp_def startSlideshow_def showNotification_def Let_def
      timer_fires_def slideshowTick_def nextImage_def stopSlideshow_def)

text \<open>
  The claim's other parts fail in states that the page reaches during a slideshow. After a
  key press has taken the lightbox to the last of three images, the slideshow is still
  active and its next tick does not advance. After a failed poll has emptied \<open>images\<close>,
  \<open>currentIndex\<close> exceeds \<open>images.length - 1\<close>, and the next tick neither moves it nor
  stops the slideshow.
\<close>

lemma slideshow_after_key_press:
  "slideshowActive (nextImage (nextImage (startSlideshow gallery3)))
   \<and> currentIndex (nextImage (nextImage (startSlideshow gallery3))) = 2
   \<and> currentIndex (timer_fires (nextImage (nextImage (startSlideshow gallery3)))) = 2"
  by (simp add: gallery3_def galleryApp_def startSlideshow_def showNotification_def Let_def
      timer_fires_def slideshowTick_def nextImage_def stopSlideshow_def)

lemma slideshow_after_failed_poll:
  "images (autoRefreshPoll H NetworkError (timer_fires (startSlideshow gallery3))) = []
   \<and> currentIndex (autoRefreshPoll H NetworkError (timer_fires (startSlideshow gallery3))) = 1
   \<and> slideshowActive
        (timer_fires (autoRefreshPoll H NetworkError (timer_fires (startSlideshow gallery3))))
   \<and> currentIndex
        (timer_fires (autoRefreshPoll H NetworkError (timer_fires (startSlideshow gallery3))))
       = 1"
  by (simp add: gallery3_def galleryApp_def startSlideshow_def showNotification_def Let_def
      timer_fires_def slideshowTick_def nextImage_def stopSlideshow_def autoRefreshPoll_def
      loadImages_def)

theorem slideshow_tick_witness:
  "startSlideshow galleryApp = galleryApp
   \<and> currentIndex (slideshowTick (startSlideshow gallery3)) = 1
   \<and> slideshowActive (slideshowTick (startSlideshow gallery3))
   \<and> currentIndex (after_ticks 1 (startSlideshow gallery3)) = 1
   \<and> slideshowActive (after_ticks 1 (startSlideshow gallery3))
   \<and> currentIndex (after_ticks 2 (startSlideshow gallery3)) = 2
   \<and> \<not> slideshowActive (after_ticks 2 (startSlideshow gallery3))
   \<and> \<not> slideshowInterval (after_ticks 2 (startSlideshow gallery3))
   \<and> liveIntervals (after_ticks 2 (startSlideshow gallery3)) = 0
   \<and> currentIndex (after_ticks 5 (startSlideshow gallery3)) = 2"
proof -
  have e: "images galleryApp = []" by (simp add: galleryApp_def)
  have i: "images gallery3 \<noteq> []" "length (images gallery3) = 3" "liveIntervals gallery3 = 0"
    by (simp_all add: gallery3_def galleryApp_def)
  have t: "currentIndex (startSlideshow gallery3) = 0"
    "images (startSlideshow gallery3) = images gallery3"
    "slideshowActive (startSlideshow gallery3)"
    using i(1) by (simp_all add: startSlideshow_fields)
  have first: "currentIndex (slideshowTick (startSlideshow gallery3)) = 1
      \<and> slideshowActive (slideshowTick (startSlideshow gallery3))"
    using slideshow_tick [of "startSlideshow gallery3" 0] t i by simp
  show ?thesis
    using slideshow_tick [of galleryApp 0] slideshow_tick [of gallery3 1]
      slideshow_tick [of gallery3 2] slideshow_tick [of gallery3 5] e i first
    by simp
qed

subsection \<open>Fetch failures and auto-refresh\<close>

lemma loadImages_notifications: "notifications (loadImages H r s) = notifications s"
  by (cases r) (simp_all add: loadImages_def Let_def updatePagination_def groupImagesByMonth_def)

lemma loadImages_failure_fields:
  assumes "r = NetworkError \<or> r = InvalidJson"
  shows "images (loadImages H r s) = []" and "displayedImages (loadImages H r s) = []"
    and "\<not> loading (loadImages H r s)"
  using assms by (auto simp: loadImages_def)

text \<open>
  Claim C3. When the fetch of \<^verbatim>\<open>loadImages\<close> fails (the request rejects or the body is
  not JSON), \<open>images\<close> and \<open>displayedImages\<close> become empty and the fetch is not
  repeated; but no notification is surfaced, neither by \<^verbatim>\<open>loadImages\<close> nor by the
  auto-refresh poll that called it: the \<^verbatim>\<open>catch\<close> block, under the comment
  \<^verbatim>\<open>// Show error message to user\<close>, only writes to the console. A manual refresh even
  reports success.
\<close>

theorem loadImages_failure_no_notification:
  "images (loadImages H NetworkError s) = [] \<and> displayedImages (loadImages H NetworkError s) = []
   \<and> notifications (loadImages H NetworkError s) = notifications s
   \<and> images (loadImages H InvalidJson s) = [] \<and> displayedImages (loadImages H InvalidJson s) = []
   \<and> notifications (loadImages H InvalidJson s) = notifications s
   \<and> notifications (autoRefreshPoll H NetworkError s) = notifications s
   \<and> notifications (autoRefreshPoll H InvalidJson s) = notifications s
   \<and> notifications (loadImages H NetworkError galleryApp) = []
   \<and> notifications (refreshGallery H NetworkError s) =
        notifications s
          @ [(emoji_camera @ '' Gallery refreshed! '' @ emoji_sparkles, ''success'')]"
  by (simp add: loadImages_notifications loadImages_failure_fields autoRefreshPoll_def Let_def
      galleryApp_def refreshGallery_def showNotification_def)

lemma digits_distinct: "distinct ''0123456789''"
  by simp

lemma decimal_nonempty: "decimal n \<noteq> []"
  by (subst decimal.simps) simp

lemma decimal_length_one: "length (decimal n) = 1 \<longleftrightarrow> n < 10"
proof (cases "n < 10")
  case True
  then show ?thesis by (subst decimal.simps) simp
next
  case False
  have "length (decimal (n div 10)) \<noteq> 0"
    using decimal_nonempty [of "n div 10"] by simp
  moreover have "length (decimal n) = Suc (length (decimal (n div 10)))"
    using False by (subst decimal.simps) simp
  ultimately show ?thesis using False by simp
qed

lemma digit_inj:
  assumes "m < 10" "n < 10" "''0123456789'' ! m = ''0123456789'' ! n"
  shows "m = n"
  using assms nth_eq_iff_index_eq [OF digits_distinct, of m n] by simp

lemma decimal_inj: "decimal m = decimal n \<Longrightarrow> m = n"
proof (induction m arbitrary: n rule: decimal.induct)
  case (1 m)
  show ?case
  proof (cases "m < 10")
    case True
    then have "length (decimal n) = 1"
      using "1.prems" decimal_length_one [of m] by simp
    then have n: "n < 10" using decimal_length_one [of n] by simp
    have "decimal m = [''0123456789'' ! m]" "decimal n = [''0123456789'' ! n]"
      using True n by (subst decimal.simps, simp)+
    then show ?thesis using "1.prems" True n digit_inj by simp
  next
    case False
    then have "length (decimal n) \<noteq> 1"
      using "1.prems" decimal_length_one [of m] by simp
    then have n: "\<not> n < 10" using decimal_length_one [of n] by simp
    have dm: "decimal m = decimal (m div 10) @ [''0123456789'' ! (m mod 10)]"
      using False by (subst decimal.simps) simp
    have dn: "decimal n = decimal (n div 10) @ [''0123456789'' ! (n mod 10)]"
      using n by (subst decimal.simps) simp
    from "1.prems" dm dn have eq: "decimal (m div 10) = decimal (n div 10)"
      and d: "''0123456789'' ! (m mod 10) = ''0123456789'' ! (n mod 10)"
      by simp_all
    have "m div 10 = n div 10" using "1.IH" [OF False eq] .
    moreover have "m mod 10 = n mod 10" using d digit_inj [of "m mod 10" "n mod 10"] by simp
    ultimately show ?thesis by (metis div_mult_mod_eq)
  qed
qed

lemma decimal_no_space: "CHR '' '' \<notin> set (decimal n)"
proof (induction n rule: decimal.induct)
  case (1 n)
  have d: "CHR '' '' \<noteq> ''0123456789'' ! k" if "k < 10" for k
  proof -
    have "''0123456789'' ! k \<in> set ''0123456789''" using that by (intro nth_mem) simp
    then show ?thesis by auto
  qed
  show ?case
  proof (cases "n < 10")
    case True
    then show ?thesis using d [of n] by (subst decimal.simps) simp
  next
    case False
    then show ?thesis using "1.IH" d [of "n mod 10"] by (subst decimal.simps) simp
  qed
qed

lemma takeWhile_until: "c \<notin> set xs \<Longrightarrow> takeWhile (\<lambda>x. x \<noteq> c) (xs @ c # r) = xs"
  by (induction xs) auto

lemma until_separator:
  assumes "xs @ c # r1 = ys @ c # r2" "c \<notin> set xs" "c \<notin> set ys"
  shows "xs = ys"
proof -
  have "takeWhile (\<lambda>x. x \<noteq> c) (xs @ c # r1) = xs"
    using assms(2) by (rule takeWhile_until)
  moreover have "takeWhile (\<lambda>x. x \<noteq> c) (ys @ c # r2) = ys"
    using assms(3) by (rule takeWhile_until)
  ultimately show ?thesis using assms(1) by simp
qed

lemma newPhotosMessage_inj: "newPhotosMessage m = newPhotosMessage n \<Longrightarrow> m = n"
proof -
  assume "newPhotosMessage m = newPhotosMessage n"
  then have "decimal m @ CHR '' '' # (''new photo'' @ (if m > 1 then ''s'' else []) @ '' added! '' @ emoji_sparkles)
     = decimal n @ CHR '' '' # (''new photo'' @ (if n > 1 then ''s'' else []) @ '' added! '' @ emoji_sparkles)"
    by (simp add: newPhotosMessage_def)
  then have "decimal m = decimal n"
    by (rule until_separator [OF _ decimal_no_space decimal_no_space])
  then show "m = n" by (rule decimal_inj)
qed

text \<open>
  Claim C5. A poll of the auto-refresh timer appends a new-arrivals notification if and
  only if there are more images after the poll than before it, and the number that the
  notification states is the difference of the two counts.
\<close>

theorem autoRefresh_new_arrivals:
  "images (autoRefreshPoll H r s) = images (loadImages H r s)
   \<and> notifications (autoRefreshPoll H r s) =
        notifications s @
          (if length (images s) < length (images (autoRefreshPoll H r s))
           then [(newPhotosMessage (length (images (autoRefreshPoll H r s)) - length (images s)),
                  ''success'')]
           else [])
   \<and> ((\<exists>k. (newPhotosMessage k, ''success'')
            \<in> set (drop (length (notifications s)) (notifications (autoRefreshPoll H r s))))
        \<longleftrightarrow> length (images s) < length (images (autoRefreshPoll H r s)))
   \<and> (\<forall>k. (newPhotosMessage k, ''success'')
            \<in> set (drop (length (notifications s)) (notifications (autoRefreshPoll H r s)))
          \<longrightarrow> k = length (images (autoRefreshPoll H r s)) - length (images s))"
proof -
  have i: "images (autoRefreshPoll H r s) = images (loadImages H r s)"
    by (simp add: autoRefreshPoll_def Let_def showNotification_def)
  have n: "notifications (autoRefreshPoll H r s) =
        notifications s @
          (if length (images s) < length (images (autoRefreshPoll H r s))
           then [(newPhotosMessage (length (images (autoRefreshPoll H r s)) - length (images s)),
                  ''success'')]
           else [])"
    unfolding i
    by (simp add: autoRefreshPoll_def Let_def showNotification_def loadImages_notifications)
  have d: "drop (length (notifications s)) (notifications (autoRefreshPoll H r s)) =
          (if length (images s) < length (images (autoRefreshPoll H r s))
           then [(newPhotosMessage (length (images (autoRefreshPoll H r s)) - length (images s)),
                  ''success'')]
           else [])"
    by (subst n) simp
  show ?thesis
    using i n newPhotosMessage_inj unfolding d by auto
qed

theorem autoRefresh_new_arrivals_witness:
  "notifications (autoRefreshPoll example_host (Json (Some [photo_jan15, photo_mar01, photo_jan20]))
       (loadImages example_host (Json (Some [photo_jan15])) galleryApp))
     = [(emoji_party @ '' 2 new photos added! '' @ emoji_sparkles, ''success'')]
   \<and> notifications (autoRefreshPoll example_host (Json (Some [photo_jan15]))
       (loadImages example_host (Json (Some [photo_jan15])) galleryApp)) = []"
proof -
  let ?s = "loadImages example_host (Json (Some [photo_jan15])) galleryApp"
  have a: "length (images ?s) = 1" "notifications ?s = []"
    by (simp_all add: loadImages_images length_Array_sort loadImages_notifications
        galleryApp_def)
  have b: "length (images (loadImages example_host
        (Json (Some [photo_jan15, photo_mar01, photo_jan20])) ?s)) = 3"
    "length (images (loadImages example_host (Json (Some [photo_jan15])) ?s)) = 1"
    by (simp_all add: loadImages_images length_Array_sort)
  have m: "newPhotosMessage 2 = emoji_party @ '' 2 new photos added! '' @ emoji_sparkles"
    by (simp add: newPhotosMessage_def decimal.simps)
  show ?thesis
    using autoRefresh_new_arrivals [of example_host "Json (Some [photo_jan15, photo_mar01, photo_jan20])" ?s]
      autoRefresh_new_arrivals [of example_host "Json (Some [photo_jan15])" ?s]
    by (simp add: a b m)
qed



end
